theory Spec2Isabelle
  imports Complex_Main
begin

section \<open>Data model\<close>

text \<open>
  The analysis core of \<^verbatim>\<open>HysAnalysis.py\<close> works on two index-aligned numeric arrays,
  displacement and force. An array is a list of numbers; the numbers are modelled as
  (finite) reals, so rounding, infinities and NaN of the IEEE doubles are outside the model.
  An exception of the source is a value of \<open>error\<close>: \<open>ValueError\<close> is what
  \<^verbatim>\<open>np.max\<close>, \<^verbatim>\<open>np.min\<close> and \<^verbatim>\<open>np.argmax\<close> raise on an empty array,
  \<open>IndexError\<close> what a read beyond the end of an array raises.
\<close>

datatype error = ValueError | IndexError

datatype peak_type = Positive | Negative

record peak =
  pk_index :: nat
  pk_type :: peak_type
  pk_disp :: real
  pk_force :: real

record hysteresis_loop =
  loop_displacement :: "real list"
  loop_force :: "real list"
  peak_disp :: real
  peak_force :: real
  area :: real
  loop_type :: peak_type

text \<open>\<^verbatim>\<open>a[start:stop]\<close>: a Python slice is clipped to the array, it never raises.\<close>

definition slice :: "'a list \<Rightarrow> nat \<Rightarrow> nat \<Rightarrow> 'a list" where
  "slice xs start stop = take (stop - start) (drop start xs)"

section \<open>Loop area\<close>

text \<open>
  \<^verbatim>\<open>calculate_loop_area\<close>: the loop runs over \<^verbatim>\<open>range(len(displacement) - 1)\<close> and reads
  \<^verbatim>\<open>force[i]\<close>, \<^verbatim>\<open>force[i+1]\<close>; a force array shorter than the displacement array
  raises IndexError. The accumulator starts at 0 and the result is its absolute value.
\<close>

fun area_loop :: "real list \<Rightarrow> real list \<Rightarrow> nat list \<Rightarrow> real \<Rightarrow> error + real" where
  "area_loop d f [] a = Inr a"
| "area_loop d f (i # is) a =
     (if Suc i < length f
      then area_loop d f is (a + 0.5 * (f ! i + f ! Suc i) * (d ! Suc i - d ! i))
      else Inl IndexError)"

definition calculate_loop_area :: "real list \<Rightarrow> real list \<Rightarrow> error + real" where
  "calculate_loop_area displacement force =
     (case area_loop displacement force [0..<length displacement - 1] 0 of
        Inl e \<Rightarrow> Inl e
      | Inr a \<Rightarrow> Inr \<bar>a\<bar>)"

section \<open>Filtering repeated cycles\<close>

text \<open>
  \<^verbatim>\<open>filter_first_loops\<close>. \<open>peaks_indices\<close> are the strict local maxima of
  \<open>|displacement|\<close> over \<^verbatim>\<open>range(1, len - 1)\<close>. The grouping loop works on positions
  \<open>i\<close>, \<open>j\<close> in \<open>peaks_indices\<close>; \<open>used\<close> is the set of positions already put in a group.
\<close>

definition peaks_indices :: "real list \<Rightarrow> nat list" where
  "peaks_indices displacement =
     filter (\<lambda>i. \<bar>displacement ! i\<bar> > \<bar>displacement ! (i - 1)\<bar> \<and>
                 \<bar>displacement ! i\<bar> > \<bar>displacement ! (i + 1)\<bar>)
            [1..<length displacement - 1]"

definition tolerance :: real where
  "tolerance = 0.08"

definition group_inner ::
  "real list \<Rightarrow> nat list \<Rightarrow> nat \<Rightarrow> nat list \<times> nat list \<Rightarrow> nat \<Rightarrow> nat list \<times> nat list" where
  "group_inner peak_values pk i st j =
     (case st of (grp, used) \<Rightarrow>
        if j \<in> set used then (grp, used)
        else if \<bar>peak_values ! j - peak_values ! i\<bar> \<le> tolerance * (peak_values ! i)
             then (grp @ [pk ! j], j # used)
             else (grp, used))"

definition group_outer ::
  "real list \<Rightarrow> nat list \<Rightarrow> nat list list \<times> nat list \<Rightarrow> nat \<Rightarrow> nat list list \<times> nat list" where
  "group_outer peak_values pk st i =
     (case st of (groups, used) \<Rightarrow>
        if i \<in> set used then (groups, used)
        else (case foldl (group_inner peak_values pk i) ([pk ! i], used) [Suc i..<length pk] of
                (grp, used') \<Rightarrow> (groups @ [grp], used')))"

definition peak_groups :: "real list \<Rightarrow> nat list list" where
  "peak_groups displacement =
     (let pk = peaks_indices displacement;
          peak_values = map (\<lambda>i. \<bar>displacement ! i\<bar>) pk
      in fst (foldl (group_outer peak_values pk) ([], []) [0..<length pk]))"

text \<open>
  \<^verbatim>\<open>first_peak = min(group)\<close>, \<^verbatim>\<open>start = max(0, first_peak - 50)\<close>,
  \<^verbatim>\<open>end = min(len(displacement), first_peak + 50)\<close>, \<^verbatim>\<open>range(start, end)\<close>.
  On naturals \<open>first_peak - 50\<close> stops at 0, which is the source's \<open>max(0, _)\<close>.
\<close>

definition window :: "nat \<Rightarrow> nat list \<Rightarrow> nat list" where
  "window n grp =
     (if grp = [] then []
      else let first_peak = fold min (tl grp) (hd grp);
               start = first_peak - 50;
               stop = min n (first_peak + 50)
           in [start..<stop])"

definition keep_list :: "real list \<Rightarrow> nat list" where
  "keep_list displacement =
     sort (remdups (concat (map (window (length displacement)) (peak_groups displacement))))"

text \<open>
  \<^verbatim>\<open>displacement[keep_list], force[keep_list]\<close>: fancy indexing raises IndexError when an
  index is beyond the array, which can only happen for a force array shorter than the
  displacement array.
\<close>

definition take_indices :: "real list \<Rightarrow> nat list \<Rightarrow> error + real list" where
  "take_indices xs idx =
     (if \<forall>i \<in> set idx. i < length xs then Inr (map (\<lambda>i. xs ! i) idx) else Inl IndexError)"

definition filter_first_loops :: "real list \<Rightarrow> real list \<Rightarrow> error + (real list \<times> real list)" where
  "filter_first_loops displacement force =
     (if peaks_indices displacement = [] then Inr (displacement, force)
      else if keep_list displacement = [] then Inr (displacement, force)
      else (case take_indices displacement (keep_list displacement) of
              Inl e \<Rightarrow> Inl e
            | Inr d' \<Rightarrow> (case take_indices force (keep_list displacement) of
                          Inl e \<Rightarrow> Inl e
                        | Inr f' \<Rightarrow> Inr (d', f'))))"

section \<open>Loop segmentation\<close>

text \<open>
  \<^verbatim>\<open>extract_hysteresis_loops\<close>, as a function of the series and of the state of the
  \<open>filter_first_loop\<close> check box. The peak loop reads \<^verbatim>\<open>force[i]\<close> only at a signed
  peak; the loops are the spans between consecutive peaks with more than 2 samples.
\<close>

fun find_peaks :: "real list \<Rightarrow> real list \<Rightarrow> nat list \<Rightarrow> error + peak list" where
  "find_peaks d f [] = Inr []"
| "find_peaks d f (i # is) =
     (if d ! i > d ! (i - 1) \<and> d ! i > d ! (i + 1) then
        (if d ! i > 0 then
           (if i < length f then
              (case find_peaks d f is of
                 Inl e \<Rightarrow> Inl e
               | Inr ps \<Rightarrow> Inr (\<lparr>pk_index = i, pk_type = Positive, pk_disp = d ! i, pk_force = f ! i\<rparr> # ps))
            else Inl IndexError)
         else find_peaks d f is)
      else if d ! i < d ! (i - 1) \<and> d ! i < d ! (i + 1) then
        (if d ! i < 0 then
           (if i < length f then
              (case find_peaks d f is of
                 Inl e \<Rightarrow> Inl e
               | Inr ps \<Rightarrow> Inr (\<lparr>pk_index = i, pk_type = Negative, pk_disp = d ! i, pk_force = f ! i\<rparr> # ps))
            else Inl IndexError)
         else find_peaks d f is)
      else find_peaks d f is)"

fun build_loops :: "real list \<Rightarrow> real list \<Rightarrow> peak list \<Rightarrow> error + hysteresis_loop list" where
  "build_loops d f (p # q # ps) =
     (let start_idx = pk_index p;
          end_idx = pk_index q;
          loop_disp = slice d start_idx (end_idx + 1);
          loop_force = slice f start_idx (end_idx + 1)
      in if length loop_disp > 2 then
           (case calculate_loop_area loop_disp loop_force of
              Inl e \<Rightarrow> Inl e
            | Inr a \<Rightarrow>
               (case build_loops d f (q # ps) of
                  Inl e \<Rightarrow> Inl e
                | Inr ls \<Rightarrow>
                    Inr (\<lparr>loop_displacement = loop_disp, loop_force = loop_force,
                          peak_disp = pk_disp p, peak_force = pk_force p,
                          area = a, loop_type = pk_type p\<rparr> # ls)))
         else build_loops d f (q # ps))"
| "build_loops d f ps = Inr []"

definition extract_hysteresis_loops ::
  "real list \<Rightarrow> real list \<Rightarrow> bool \<Rightarrow> error + hysteresis_loop list" where
  "extract_hysteresis_loops displacement force filter_first_loop =
     (case (if filter_first_loop then filter_first_loops displacement force
            else Inr (displacement, force)) of
        Inl e \<Rightarrow> Inl e
      | Inr (d, f) \<Rightarrow>
          (case find_peaks d f [1..<length d - 1] of
             Inl e \<Rightarrow> Inl e
           | Inr peaks \<Rightarrow> build_loops d f peaks))"

section \<open>Preprocessing\<close>

text \<open>
  \<^verbatim>\<open>is_near_zero(value, threshold)\<close> and the range of the magnitudes,
  \<^verbatim>\<open>np.max(np.abs(a)) - np.min(np.abs(a))\<close>, which is used on non-empty arrays only
  (\<open>preprocess_data\<close> below raises before on an empty one).
\<close>

definition is_near_zero :: "real \<Rightarrow> real \<Rightarrow> bool" where
  "is_near_zero v threshold = (\<bar>v\<bar> < threshold)"

definition abs_range :: "real list \<Rightarrow> real" where
  "abs_range xs = Max (set (map abs xs)) - Min (set (map abs xs))"

definition disp_threshold_of :: "real list \<Rightarrow> real" where
  "disp_threshold_of displacement = max 0.001 (abs_range displacement * 0.001)"

definition force_threshold_of :: "real list \<Rightarrow> real" where
  "force_threshold_of force = max 0.01 (abs_range force * 0.001)"

definition snap :: "real \<Rightarrow> real list \<Rightarrow> real list" where
  "snap threshold xs = map (\<lambda>v. if is_near_zero v threshold then 0 else v) xs"

text \<open>
  The dictionary \<open>disp_to_max_force_idx\<close> maps a displacement value to a sample index.
  A Python dict keeps its keys in insertion order, and the inner loop scans the keys in
  that order, so the dictionary is an association list: assigning to a key that is present
  keeps its place, assigning to a new key appends it, \<^verbatim>\<open>del\<close> removes the entry.
\<close>

type_synonym pydict = "(real \<times> nat) list"

definition dict_del :: "real \<Rightarrow> pydict \<Rightarrow> pydict" where
  "dict_del k m = filter (\<lambda>kv. fst kv \<noteq> k) m"

definition dict_set :: "real \<Rightarrow> nat \<Rightarrow> pydict \<Rightarrow> pydict" where
  "dict_set k v m =
     (if k \<in> fst ` set m then map (\<lambda>kv. if fst kv = k then (k, v) else kv) m
      else m @ [(k, v)])"

text \<open>The inner loop: the first stored key within the tolerance, where the loop breaks.\<close>

fun find_similar :: "real \<Rightarrow> real \<Rightarrow> pydict \<Rightarrow> (real \<times> nat) option" where
  "find_similar tol current_disp [] = None"
| "find_similar tol current_disp ((stored_disp, stored_idx) # m) =
     (if \<bar>current_disp - stored_disp\<bar> \<le> tol then Some (stored_disp, stored_idx)
      else find_similar tol current_disp m)"

definition dedup_step :: "real \<Rightarrow> real list \<Rightarrow> real list \<Rightarrow> pydict \<Rightarrow> nat \<Rightarrow> pydict" where
  "dedup_step tol dc fc m i =
     (case find_similar tol (dc ! i) m of
        None \<Rightarrow> dict_set (dc ! i) i m
      | Some (stored_disp, stored_idx) \<Rightarrow>
          if \<bar>fc ! i\<bar> > \<bar>fc ! stored_idx\<bar>
          then dict_set (dc ! i) i (dict_del stored_disp m)
          else m)"

definition disp_to_max_force_idx :: "real \<Rightarrow> real list \<Rightarrow> real list \<Rightarrow> pydict" where
  "disp_to_max_force_idx tol dc fc = foldl (dedup_step tol dc fc) [] [0..<length dc]"

text \<open>\<^verbatim>\<open>unique_indices = sorted(disp_to_max_force_idx.values())\<close>: the values are the indices.\<close>

definition unique_indices :: "real \<Rightarrow> real list \<Rightarrow> real list \<Rightarrow> nat list" where
  "unique_indices tol dc fc = sort (map snd (disp_to_max_force_idx tol dc fc))"

text \<open>
  The re-zero step: \<open>loading_start_idx\<close> starts at 0 and becomes the first index beyond
  twice a threshold; the shift is applied only when it is greater than 0.
\<close>

definition loading_start_idx :: "real \<Rightarrow> real \<Rightarrow> real list \<Rightarrow> real list \<Rightarrow> nat" where
  "loading_start_idx disp_threshold force_threshold dc fc =
     (case List.find (\<lambda>i. \<bar>dc ! i\<bar> > disp_threshold * 2 \<or> \<bar>fc ! i\<bar> > force_threshold * 2)
                     [0..<length dc] of
        None \<Rightarrow> 0
      | Some i \<Rightarrow> i)"

definition rezero :: "real \<Rightarrow> real \<Rightarrow> real list \<Rightarrow> real list \<Rightarrow> real list" where
  "rezero disp_threshold force_threshold dc fc =
     (let start = loading_start_idx disp_threshold force_threshold dc fc
      in if start > 0 then map (\<lambda>x. x - dc ! start) dc else dc)"

text \<open>
  \<^verbatim>\<open>preprocess_data\<close>. \<^verbatim>\<open>np.max\<close> raises ValueError on an empty array (displacement
  first, then force). The snapping loop runs over \<^verbatim>\<open>range(len(displacement))\<close> and reads
  \<^verbatim>\<open>force[i]\<close>, so it raises IndexError exactly when the force array is the shorter one;
  samples of a longer force array beyond \<open>len(displacement)\<close> are never read again.
\<close>

definition dedup :: "real \<Rightarrow> real list \<Rightarrow> real list \<Rightarrow> real list \<times> real list" where
  "dedup disp_threshold dc fc =
     (let idx = unique_indices (disp_threshold * 0.5) dc fc
      in (map (\<lambda>i. dc ! i) idx, map (\<lambda>i. fc ! i) idx))"

definition preprocess_data :: "real list \<Rightarrow> real list \<Rightarrow> error + (real list \<times> real list)" where
  "preprocess_data displacement force =
     (if displacement = [] \<or> force = [] then Inl ValueError
      else if length force < length displacement then Inl IndexError
      else
        let disp_threshold = disp_threshold_of displacement;
            force_threshold = force_threshold_of force;
            n = length displacement;
            displacement_cleaned = snap disp_threshold displacement;
            force_cleaned = snap force_threshold (take n force) @ drop n force;
            (dc, fc) = dedup disp_threshold displacement_cleaned force_cleaned
        in Inr (rezero disp_threshold force_threshold dc fc, fc))"

section \<open>Skeleton curve\<close>

text \<open>
  A branch is the dictionary \<^verbatim>\<open>{'disp': [...], 'force': [...]}\<close>, the skeleton curve the
  dictionary \<^verbatim>\<open>{'positive': ..., 'negative': ...}\<close>.
\<close>

record branch =
  br_disp :: "real list"
  br_force :: "real list"

record skeleton_curve =
  positive :: branch
  negative :: branch

definition max_abs :: "real list \<Rightarrow> real" where
  "max_abs xs = Max (set (map abs xs))"

text \<open>
  \<^verbatim>\<open>extract_outer_envelope\<close>. The conditions of a loop body are joined by \<^verbatim>\<open>and\<close>, which
  reads \<^verbatim>\<open>force[i]\<close> only when the two displacement tests hold.
\<close>

fun pos_envelope_loop ::
  "real \<Rightarrow> real \<Rightarrow> real list \<Rightarrow> real list \<Rightarrow> nat list \<Rightarrow> real \<Rightarrow> branch \<Rightarrow> error + branch" where
  "pos_envelope_loop dt ft d f [] max_disp env = Inr env"
| "pos_envelope_loop dt ft d f (i # is) max_disp env =
     (if d ! i > dt \<and> d ! i > max_disp + dt * 0.1 then
        (if i < length f then
           (if \<bar>f ! i\<bar> > ft
            then pos_envelope_loop dt ft d f is (d ! i)
                   \<lparr>br_disp = br_disp env @ [d ! i], br_force = br_force env @ [f ! i]\<rparr>
            else pos_envelope_loop dt ft d f is max_disp env)
         else Inl IndexError)
      else pos_envelope_loop dt ft d f is max_disp env)"

fun neg_envelope_loop ::
  "real \<Rightarrow> real \<Rightarrow> real list \<Rightarrow> real list \<Rightarrow> nat list \<Rightarrow> real \<Rightarrow> branch \<Rightarrow> error + branch" where
  "neg_envelope_loop dt ft d f [] min_disp env = Inr env"
| "neg_envelope_loop dt ft d f (i # is) min_disp env =
     (if d ! i < - dt \<and> d ! i < min_disp - dt * 0.1 then
        (if i < length f then
           (if \<bar>f ! i\<bar> > ft
            then neg_envelope_loop dt ft d f is (d ! i)
                   \<lparr>br_disp = br_disp env @ [d ! i], br_force = br_force env @ [f ! i]\<rparr>
            else neg_envelope_loop dt ft d f is min_disp env)
         else Inl IndexError)
      else neg_envelope_loop dt ft d f is min_disp env)"

definition extract_outer_envelope :: "real list \<Rightarrow> real list \<Rightarrow> error + skeleton_curve" where
  "extract_outer_envelope displacement force =
     (if displacement = [] \<or> force = [] then Inl ValueError
      else
        let disp_threshold = max 0.01 (max_abs displacement * 0.005);
            force_threshold = max 0.01 (max_abs force * 0.01);
            start = \<lparr>br_disp = [0], br_force = [0]\<rparr>;
            idx = [0..<length displacement]
        in (case pos_envelope_loop disp_threshold force_threshold displacement force idx 0 start of
              Inl e \<Rightarrow> Inl e
            | Inr pos_envelope \<Rightarrow>
                (case neg_envelope_loop disp_threshold force_threshold displacement force idx 0 start of
                   Inl e \<Rightarrow> Inl e
                 | Inr neg_envelope \<Rightarrow>
                     Inr \<lparr>positive = pos_envelope, negative = neg_envelope\<rparr>)))"

text \<open>
  \<^verbatim>\<open>extract_peak_points\<close>. \<open>all_peaks\<close> are the strict local extrema beyond the dead band,
  in index order.
\<close>

fun all_peaks_loop :: "real \<Rightarrow> real list \<Rightarrow> real list \<Rightarrow> nat list \<Rightarrow> error + peak list" where
  "all_peaks_loop dt d f [] = Inr []"
| "all_peaks_loop dt d f (i # is) =
     (if d ! i > d ! (i - 1) \<and> d ! i > d ! (i + 1) \<and> d ! i > dt then
        (if i < length f then
           (case all_peaks_loop dt d f is of
              Inl e \<Rightarrow> Inl e
            | Inr ps \<Rightarrow> Inr (\<lparr>pk_index = i, pk_type = Positive, pk_disp = d ! i, pk_force = f ! i\<rparr> # ps))
         else Inl IndexError)
      else if d ! i < d ! (i - 1) \<and> d ! i < d ! (i + 1) \<and> d ! i < - dt then
        (if i < length f then
           (case all_peaks_loop dt d f is of
              Inl e \<Rightarrow> Inl e
            | Inr ps \<Rightarrow> Inr (\<lparr>pk_index = i, pk_type = Negative, pk_disp = d ! i, pk_force = f ! i\<rparr> # ps))
         else Inl IndexError)
      else all_peaks_loop dt d f is)"

definition first_neg_peak_idx :: "peak list \<Rightarrow> nat option" where
  "first_neg_peak_idx all_peaks =
     (case filter (\<lambda>p. pk_type p = Negative) all_peaks of [] \<Rightarrow> None | p # _ \<Rightarrow> Some (pk_index p))"

definition second_pos_peak_idx :: "peak list \<Rightarrow> nat option" where
  "second_pos_peak_idx all_peaks =
     (case filter (\<lambda>p. pk_type p = Positive) all_peaks of
        _ # p # _ \<Rightarrow> Some (pk_index p)
      | _ \<Rightarrow> None)"

text \<open>
  The scan for the zero crossing over \<^verbatim>\<open>range(start_search, end_search)\<close>; it stops at the
  first \<open>j\<close> with \<open>displacement[j] \<le> 0 < displacement[j+1]\<close> and reads \<^verbatim>\<open>force[j]\<close> and
  \<^verbatim>\<open>force[j+1]\<close> there.
\<close>

fun crossing_loop :: "real list \<Rightarrow> real list \<Rightarrow> nat list \<Rightarrow> error + real option" where
  "crossing_loop d f [] = Inr None"
| "crossing_loop d f (j # js) =
     (if d ! j \<le> 0 \<and> d ! (j + 1) > 0 then
        (if d ! (j + 1) \<noteq> d ! j then
           (if j + 1 < length f then
              (let t = - d ! j / (d ! (j + 1) - d ! j)
               in Inr (Some (f ! j + t * (f ! (j + 1) - f ! j))))
            else Inl IndexError)
         else crossing_loop d f js)
      else crossing_loop d f js)"

definition common_y_intercept :: "real list \<Rightarrow> real list \<Rightarrow> peak list \<Rightarrow> error + real option" where
  "common_y_intercept d f all_peaks =
     (case (first_neg_peak_idx all_peaks, second_pos_peak_idx all_peaks) of
        (Some start_search, Some end_search) \<Rightarrow> crossing_loop d f [start_search..<end_search]
      | _ \<Rightarrow> Inr None)"

text \<open>
  The two filters over the peaks sorted by magnitude (\<^verbatim>\<open>sorted\<close> is stable, as
  \<open>sort_key\<close> is).
\<close>

fun pos_peaks_loop :: "real \<Rightarrow> peak list \<Rightarrow> real \<Rightarrow> branch \<Rightarrow> branch" where
  "pos_peaks_loop dt [] max_pos br = br"
| "pos_peaks_loop dt (p # ps) max_pos br =
     (if pk_disp p > max_pos + dt * 0.1
      then pos_peaks_loop dt ps (pk_disp p)
             \<lparr>br_disp = br_disp br @ [pk_disp p], br_force = br_force br @ [pk_force p]\<rparr>
      else pos_peaks_loop dt ps max_pos br)"

fun neg_peaks_loop :: "real \<Rightarrow> peak list \<Rightarrow> real \<Rightarrow> branch \<Rightarrow> branch" where
  "neg_peaks_loop dt [] max_neg br = br"
| "neg_peaks_loop dt (p # ps) max_neg br =
     (if \<bar>pk_disp p\<bar> > \<bar>max_neg\<bar> + dt * 0.1
      then neg_peaks_loop dt ps (pk_disp p)
             \<lparr>br_disp = br_disp br @ [pk_disp p], br_force = br_force br @ [pk_force p]\<rparr>
      else neg_peaks_loop dt ps max_neg br)"

definition extract_peak_points :: "real list \<Rightarrow> real list \<Rightarrow> error + skeleton_curve" where
  "extract_peak_points displacement force =
     (if displacement = [] then Inl ValueError
      else
        let disp_threshold = max 0.01 (max_abs displacement * 0.01)
        in (case all_peaks_loop disp_threshold displacement force [1..<length displacement - 1] of
              Inl e \<Rightarrow> Inl e
            | Inr all_peaks \<Rightarrow>
                (case common_y_intercept displacement force all_peaks of
                   Inl e \<Rightarrow> Inl e
                 | Inr y0 \<Rightarrow>
                     let start = \<lparr>br_disp = [0],
                                  br_force = [case y0 of Some y \<Rightarrow> y | None \<Rightarrow> 0]\<rparr>;
                         pos_peaks_sorted =
                           sort_key pk_disp (filter (\<lambda>p. pk_type p = Positive) all_peaks);
                         neg_peaks_sorted =
                           sort_key (\<lambda>p. \<bar>pk_disp p\<bar>) (filter (\<lambda>p. pk_type p = Negative) all_peaks)
                     in Inr \<lparr>positive = pos_peaks_loop disp_threshold pos_peaks_sorted 0 start,
                             negative = neg_peaks_loop disp_threshold neg_peaks_sorted 0 start\<rparr>)))"

text \<open>
  The invariant of the four loops that build a branch: the branch starts at displacement 0,
  its magnitudes increase strictly, and none exceeds the magnitude of the running extreme
  \<open>m\<close> (\<open>max_disp\<close>, \<open>min_disp\<close>, \<open>max_pos\<close>, \<open>max_neg\<close>).
\<close>

definition branch_inv :: "real \<Rightarrow> branch \<Rightarrow> bool" where
  "branch_inv m env =
     (br_disp env \<noteq> [] \<and> hd (br_disp env) = 0 \<and>
      sorted_wrt (<) (map abs (br_disp env)) \<and> (\<forall>y \<in> set (br_disp env). \<bar>y\<bar> \<le> \<bar>m\<bar>))"

definition dict_ok :: "nat \<Rightarrow> pydict \<Rightarrow> bool" where
  "dict_ok i m = (distinct (map fst m) \<and> distinct (map snd m) \<and> (\<forall>kv \<in> set m. snd kv < i))"

definition dedup_inv :: "real \<Rightarrow> real list \<Rightarrow> real list \<Rightarrow> nat \<Rightarrow> pydict \<Rightarrow> bool" where
  "dedup_inv tol dc fc i m =
     ((\<forall>kv \<in> set m. snd kv < i \<and> fst kv = dc ! snd kv) \<and>
      (\<forall>kv \<in> set m. \<forall>kv' \<in> set m. kv \<noteq> kv' \<longrightarrow> \<not> \<bar>fst kv - fst kv'\<bar> \<le> tol) \<and>
      (\<forall>j < i. \<exists>kv \<in> set m. \<bar>dc ! j - fst kv\<bar> \<le> tol \<and>
          (\<bar>fc ! j\<bar> < \<bar>fc ! snd kv\<bar> \<or> (\<bar>fc ! j\<bar> = \<bar>fc ! snd kv\<bar> \<and> snd kv \<le> j))))"

definition tol_transitive :: "real \<Rightarrow> real list \<Rightarrow> bool" where
  "tol_transitive tol dc =
     (\<forall>a \<in> set dc. \<forall>b \<in> set dc. \<forall>c \<in> set dc.
        \<bar>a - b\<bar> \<le> tol \<and> \<bar>b - c\<bar> \<le> tol \<longrightarrow> \<bar>a - c\<bar> \<le> tol)"

definition first_max_in_group :: "real \<Rightarrow> real list \<Rightarrow> real list \<Rightarrow> nat \<Rightarrow> bool" where
  "first_max_in_group tol dc fc v =
     (v < length dc \<and>
      (\<forall>j < length dc. \<bar>dc ! j - dc ! v\<bar> \<le> tol \<longrightarrow>
         \<bar>fc ! j\<bar> < \<bar>fc ! v\<bar> \<or> (\<bar>fc ! j\<bar> = \<bar>fc ! v\<bar> \<and> v \<le> j)))"

definition exceeds :: "real \<Rightarrow> real \<Rightarrow> real list \<Rightarrow> real list \<Rightarrow> nat \<Rightarrow> bool" where
  "exceeds disp_threshold force_threshold dc fc i =
     (\<bar>dc ! i\<bar> > disp_threshold * 2 \<or> \<bar>fc ! i\<bar> > force_threshold * 2)"

definition already_clean :: "real list \<Rightarrow> real list \<Rightarrow> bool" where
  "already_clean d f =
     (d \<noteq> [] \<and> length f = length d \<and>
      (\<forall>v \<in> set d. v = 0 \<or> disp_threshold_of d \<le> \<bar>v\<bar>) \<and>
      (\<forall>v \<in> set f. v = 0 \<or> force_threshold_of f \<le> \<bar>v\<bar>) \<and>
      (\<forall>i < length d. \<forall>j < i. \<bar>d ! i - d ! j\<bar> > disp_threshold_of d * 0.5) \<and>
      (let start = loading_start_idx (disp_threshold_of d) (force_threshold_of f) d f
       in start = 0 \<or> d ! start = 0))"

section \<open>Smoothing\<close>

text \<open>
  The state of the smoothing controls that \<^verbatim>\<open>interpolate_smooth\<close> reads: the selected
  algorithm (\<^verbatim>\<open>get_smooth_algorithm\<close>), the number in the combo box \<open>interp_points\<close> and
  the value of \<open>smoothness_spinbox\<close>. The combo box is not editable and offers the items of
  \<open>interp_points_items\<close>.
\<close>

datatype algorithm = PCHIP | Akima | Bezier | BSpline | SavitzkyGolay | UnivariateSpline | CubicSpline

record smooth_controls =
  smooth_algorithm :: algorithm
  interp_points :: nat
  smoothness_spinbox :: real

definition interp_points_items :: "nat list" where
  "interp_points_items = [100, 200, 300, 500, 1000]"

text \<open>
  The SciPy routines are not part of the repository. Each one is a parameter: given the
  sorted source points and the target grid it returns the smoothed values, or \<open>None\<close> when
  it raises. \<open>bezier_curve\<close> is the repository's own Bezier evaluation, built from SciPy's
  \<^verbatim>\<open>comb\<close> and \<^verbatim>\<open>PchipInterpolator\<close> with its own fall-backs; it is a parameter as well.
\<close>

record scipy =
  pchip :: "real list \<Rightarrow> real list \<Rightarrow> real list \<Rightarrow> real list option"
  akima :: "real list \<Rightarrow> real list \<Rightarrow> real list \<Rightarrow> real list option"
  bezier_curve :: "real list \<Rightarrow> real list \<Rightarrow> real list \<Rightarrow> real \<Rightarrow> real list option"
  splrep_splev :: "real \<Rightarrow> real list \<Rightarrow> real list \<Rightarrow> real list \<Rightarrow> real list option"
  make_interp_spline :: "real list \<Rightarrow> real list \<Rightarrow> real list \<Rightarrow> real list option"
  univariate_spline :: "real \<Rightarrow> real list \<Rightarrow> real list \<Rightarrow> real list \<Rightarrow> real list option"
  savgol_filter :: "real list \<Rightarrow> int \<Rightarrow> int \<Rightarrow> real list option"

text \<open>\<^verbatim>\<open>int(v)\<close> of a float truncates towards zero.\<close>

definition py_int :: "real \<Rightarrow> int" where
  "py_int v = (if 0 \<le> v then \<lfloor>v\<rfloor> else \<lceil>v\<rceil>)"

text \<open>
  \<^verbatim>\<open>np.linspace(start, stop, num)\<close>: \<open>num\<close> samples \<open>start + i * step\<close> with
  \<open>step = (stop - start) / (num - 1)\<close>; a single sample is \<open>start\<close>.
\<close>

definition linspace :: "real \<Rightarrow> real \<Rightarrow> nat \<Rightarrow> real list" where
  "linspace start stop num =
     map (\<lambda>i. start + real i * ((stop - start) / real (num - 1))) [0..<num]"

text \<open>\<^verbatim>\<open>np.argsort\<close>: the indices that sort the array.\<close>

definition argsort :: "real list \<Rightarrow> nat list" where
  "argsort xs = map snd (sort_key fst (zip xs [0..<length xs]))"

text \<open>
  The loop that removes repeated x values: \<open>seen_x\<close> holds the values met so far, and an
  index is kept when its value is met for the first time.
\<close>

definition seen_step :: "real list \<Rightarrow> nat list \<times> real list \<Rightarrow> nat \<Rightarrow> nat list \<times> real list" where
  "seen_step x st i =
     (case st of (unique_idx, seen_x) \<Rightarrow>
        if x ! i \<notin> set seen_x then (unique_idx @ [i], x ! i # seen_x)
        else (unique_idx, seen_x))"

definition x_unique_indices :: "real list \<Rightarrow> nat list" where
  "x_unique_indices x = fst (foldl (seen_step x) ([], []) [0..<length x])"

text \<open>The window and the polynomial order handed to \<^verbatim>\<open>savgol_filter\<close>.\<close>

definition sg_window_length :: "real \<Rightarrow> nat \<Rightarrow> int" where
  "sg_window_length smoothness len_x_smooth =
     (let w0 = py_int smoothness;
          w1 = (if w0 mod 2 = 0 then w0 + 1 else w0);
          w2 = min w1 (int len_x_smooth - 1)
      in if w2 < 3 then 3 else w2)"

definition sg_polyorder :: "real \<Rightarrow> nat \<Rightarrow> int" where
  "sg_polyorder smoothness len_x_smooth = min 3 (sg_window_length smoothness len_x_smooth - 1)"

text \<open>The branch on the algorithm name; \<open>None\<close> is an exception of the library.\<close>

definition evaluate ::
  "scipy \<Rightarrow> smooth_controls \<Rightarrow> real list \<Rightarrow> real list \<Rightarrow> real list \<Rightarrow> real list option" where
  "evaluate lib ui x_sorted y_sorted x_smooth =
     (let smoothness = smoothness_spinbox ui
      in case smooth_algorithm ui of
           PCHIP \<Rightarrow> pchip lib x_sorted y_sorted x_smooth
         | Akima \<Rightarrow> akima lib x_sorted y_sorted x_smooth
         | Bezier \<Rightarrow> bezier_curve lib x_sorted y_sorted x_smooth (smoothness / 100.0)
         | BSpline \<Rightarrow> splrep_splev lib (smoothness * real (length x_sorted)) x_sorted y_sorted x_smooth
         | SavitzkyGolay \<Rightarrow>
             (case make_interp_spline lib x_sorted y_sorted x_smooth of
                None \<Rightarrow> None
              | Some y_temp \<Rightarrow>
                  savgol_filter lib y_temp (sg_window_length smoothness (length x_smooth))
                    (sg_polyorder smoothness (length x_smooth)))
         | UnivariateSpline \<Rightarrow>
             (if smoothness = 0 then make_interp_spline lib x_sorted y_sorted x_smooth
              else univariate_spline lib (smoothness * real (length x_sorted)) x_sorted y_sorted x_smooth)
         | CubicSpline \<Rightarrow> make_interp_spline lib x_sorted y_sorted x_smooth)"

text \<open>
  The source points that are used: the first occurrence of each x value
  (\<open>x_unique\<close>, \<open>y_unique\<close>), sorted by x (\<open>x_sorted\<close>, \<open>y_sorted\<close>).
\<close>

definition usable_points :: "real list \<Rightarrow> real list \<Rightarrow> real list \<times> real list" where
  "usable_points x y =
     (let unique_idx = x_unique_indices x;
          x_unique = map (\<lambda>i. x ! i) unique_idx;
          y_unique = map (\<lambda>i. y ! i) unique_idx;
          sort_indices = argsort x_unique
      in (map (\<lambda>i. x_unique ! i) sort_indices, map (\<lambda>i. y_unique ! i) sort_indices))"

text \<open>
  \<^verbatim>\<open>interpolate_smooth(x, y, num_points=300)\<close>. The argument \<open>num_points\<close> is overwritten
  by the combo box before it is used. Every exception inside the \<^verbatim>\<open>try\<close> block ends in
  \<^verbatim>\<open>return x, y\<close>: an index of \<open>unique_indices\<close> beyond \<open>y\<close>, or a failure of the library.
\<close>

definition interpolate_smooth ::
  "scipy \<Rightarrow> smooth_controls \<Rightarrow> real list \<Rightarrow> real list \<Rightarrow> nat \<Rightarrow> real list \<times> real list" where
  "interpolate_smooth lib ui x y num_points_arg =
     (if length x < 4 then (x, y)
      else if length (x_unique_indices x) < 4 then (x, y)
      else if \<not> (\<forall>i \<in> set (x_unique_indices x). i < length y) then (x, y)
      else
        let (x_sorted, y_sorted) = usable_points x y;
            num_points = interp_points ui;
            x_smooth = linspace (x_sorted ! 0) (last x_sorted) num_points
        in (case evaluate lib ui x_sorted y_sorted x_smooth of
              None \<Rightarrow> (x, y)
            | Some y_smooth \<Rightarrow> (x_smooth, y_smooth)))"

text \<open>
  A stand-in for the library, to run the smoothing on concrete inputs: every routine
  returns the target grid as its values, the filter its input.
\<close>

definition stand_in_lib :: scipy where
  "stand_in_lib =
     \<lparr>pchip = (\<lambda>xs ys grid. Some grid),
      akima = (\<lambda>xs ys grid. Some grid),
      bezier_curve = (\<lambda>xs ys grid ratio. Some grid),
      splrep_splev = (\<lambda>s xs ys grid. Some grid),
      make_interp_spline = (\<lambda>xs ys grid. Some grid),
      univariate_spline = (\<lambda>s xs ys grid. Some grid),
      savgol_filter = (\<lambda>ys w p. Some ys)\<rparr>"

section \<open>Ductility\<close>

text \<open>
  \<^verbatim>\<open>np.argmax\<close> and \<^verbatim>\<open>np.argmin\<close> return the index of the first occurrence of the
  largest and of the smallest value; on an empty array they raise ValueError, which the
  callers below test for before.
\<close>

definition np_argmax :: "real list \<Rightarrow> nat" where
  "np_argmax xs = hd (filter (\<lambda>i. xs ! i = Max (set xs)) [0..<length xs])"

definition np_argmin :: "real list \<Rightarrow> nat" where
  "np_argmin xs = hd (filter (\<lambda>i. xs ! i = Min (set xs)) [0..<length xs])"

text \<open>\<^verbatim>\<open>calc_geometric_ductility\<close>\<close>

definition calc_geometric_ductility :: "real list \<Rightarrow> real list \<Rightarrow> error + real" where
  "calc_geometric_ductility disp force =
     (if force = [] then Inl ValueError
      else
        let abs_force = map abs force;
            max_idx = np_argmax abs_force;
            max_force = abs_force ! max_idx
        in if \<not> max_idx < length disp then Inl IndexError
           else
             let max_disp = \<bar>disp ! max_idx\<bar>;
                 yield_force = 0.75 * max_force;
                 yield_idx = np_argmin (map (\<lambda>a. \<bar>a - yield_force\<bar>) (take (max_idx + 1) abs_force));
                 yield_disp = \<bar>disp ! yield_idx\<bar>
             in Inr (if yield_disp > 0 then max_disp / yield_disp else 1))"

text \<open>\<^verbatim>\<open>calc_energy_ductility\<close>\<close>

definition calc_energy_ductility :: "real list \<Rightarrow> real list \<Rightarrow> error + real" where
  "calc_energy_ductility disp force =
     (case calculate_loop_area disp force of
        Inl e \<Rightarrow> Inl e
      | Inr total_energy \<Rightarrow>
          if disp = [] \<or> force = [] then Inl ValueError
          else
            let max_disp = \<bar>disp ! np_argmax (map abs disp)\<bar>;
                max_force = \<bar>force ! np_argmax (map abs force)\<bar>
            in if max_force > 0 then
                 (let yield_disp = 2 * total_energy / max_force
                  in Inr (if yield_disp > 0 then max_disp / yield_disp else 1))
               else Inr 1)"

text \<open>
  The loop for \<open>K0\<close> of \<^verbatim>\<open>calc_park_ductility\<close> and \<^verbatim>\<open>calc_elastic_yield_ductility\<close>,
  over \<^verbatim>\<open>range(1, min(5, len(disp)))\<close>; \<^verbatim>\<open>force[i]\<close> is read only where
  \<open>|disp[i]| > 1e-6\<close>.
\<close>

fun k0_loop :: "real list \<Rightarrow> real list \<Rightarrow> nat list \<Rightarrow> real \<Rightarrow> error + real" where
  "k0_loop disp force [] K0 = Inr K0"
| "k0_loop disp force (i # is) K0 =
     (if \<bar>disp ! i\<bar> > 1 / 10 ^ 6 then
        (if i < length force then
           (let K_temp = \<bar>force ! i / disp ! i\<bar>
            in k0_loop disp force is (if K_temp > K0 then K_temp else K0))
         else Inl IndexError)
      else k0_loop disp force is K0)"

text \<open>The second loop of \<^verbatim>\<open>calc_park_ductility\<close>, which returns at the first yield point.\<close>

fun park_yield_loop :: "real list \<Rightarrow> real list \<Rightarrow> real \<Rightarrow> nat list \<Rightarrow> error + real" where
  "park_yield_loop disp force Ky [] = Inr 1"
| "park_yield_loop disp force Ky (i # is) =
     (if \<bar>disp ! i\<bar> > 1 / 10 ^ 6 then
        (if i < length force then
           (let K_current = \<bar>force ! i / disp ! i\<bar>
            in if K_current \<le> Ky then
                 (let yield_disp = \<bar>disp ! i\<bar>;
                      max_disp = \<bar>last disp\<bar>
                  in Inr (if yield_disp > 0 then max_disp / yield_disp else 1))
               else park_yield_loop disp force Ky is)
         else Inl IndexError)
      else park_yield_loop disp force Ky is)"

definition calc_park_ductility :: "real list \<Rightarrow> real list \<Rightarrow> error + real" where
  "calc_park_ductility disp force =
     (if length disp < 3 then Inr 1
      else (case k0_loop disp force [1..<min 5 (length disp)] 0 of
              Inl e \<Rightarrow> Inl e
            | Inr K0 \<Rightarrow>
                if K0 = 0 then Inr 1
                else (let Ky = K0 / 3 in park_yield_loop disp force Ky [2..<length disp])))"

text \<open>\<^verbatim>\<open>calc_farthest_ductility\<close>; the loop keeps \<open>(max_dist, yield_idx)\<close>.\<close>

definition farthest_step ::
  "real \<Rightarrow> real \<Rightarrow> real list \<Rightarrow> real list \<Rightarrow> real \<times> nat \<Rightarrow> nat \<Rightarrow> real \<times> nat" where
  "farthest_step max_disp max_force disp force st i =
     (case st of (max_dist, yield_idx) \<Rightarrow>
        let dist = \<bar>max_force * disp ! i - max_disp * force ! i\<bar> / sqrt (max_force\<^sup>2 + max_disp\<^sup>2)
        in if dist > max_dist then (dist, i) else (max_dist, yield_idx))"

definition calc_farthest_ductility :: "real list \<Rightarrow> real list \<Rightarrow> error + real" where
  "calc_farthest_ductility disp force =
     (if disp = [] then Inl ValueError
      else
        let max_idx = np_argmax (map abs disp);
            max_disp = disp ! max_idx
        in if \<not> max_idx < length force then Inl IndexError
           else
             let max_force = force ! max_idx
             in if \<bar>max_disp\<bar> < 1 / 10 ^ 6 then Inr 1
                else
                  let (max_dist, yield_idx) =
                        foldl (farthest_step max_disp max_force disp force) (0, 0) [1..<max_idx];
                      yield_disp = \<bar>disp ! yield_idx\<bar>
                  in Inr (if yield_disp > 0 then \<bar>max_disp\<bar> / yield_disp else 1))"

text \<open>\<^verbatim>\<open>calc_asce_ductility\<close>\<close>

definition calc_asce_ductility :: "real list \<Rightarrow> real list \<Rightarrow> error + real" where
  "calc_asce_ductility disp force =
     (if force = [] then Inl ValueError
      else
        let abs_force = map abs force;
            max_force = Max (set abs_force);
            yield_force = 0.6 * max_force;
            yield_idx = np_argmin (map (\<lambda>a. \<bar>a - yield_force\<bar>) abs_force)
        in if \<not> yield_idx < length disp then Inl IndexError
           else
             let yield_disp = \<bar>disp ! yield_idx\<bar>;
                 max_disp = \<bar>disp ! np_argmax (map abs disp)\<bar>
             in Inr (if yield_disp > 0 then max_disp / yield_disp else 1))"

text \<open>\<^verbatim>\<open>calc_eeep_ductility\<close>\<close>

definition calc_eeep_ductility :: "real list \<Rightarrow> real list \<Rightarrow> error + real" where
  "calc_eeep_ductility disp force =
     (case calculate_loop_area disp force of
        Inl e \<Rightarrow> Inl e
      | Inr loop_area \<Rightarrow>
          if force = [] \<or> disp = [] then Inl ValueError
          else
            let max_force = \<bar>force ! np_argmax (map abs force)\<bar>;
                max_disp = \<bar>disp ! np_argmax (map abs disp)\<bar>
            in if max_force > 0 then
                 (let yield_disp = loop_area / max_force
                  in Inr (if yield_disp > 0 then max_disp / yield_disp else 1))
               else Inr 1)"

text \<open>\<^verbatim>\<open>calc_elastic_yield_ductility\<close>\<close>

definition calc_elastic_yield_ductility :: "real list \<Rightarrow> real list \<Rightarrow> error + real" where
  "calc_elastic_yield_ductility disp force =
     (case k0_loop disp force [1..<min 5 (length disp)] 0 of
        Inl e \<Rightarrow> Inl e
      | Inr K0 \<Rightarrow>
          if K0 = 0 then Inr 1
          else if force = [] \<or> disp = [] then Inl ValueError
          else
            let max_force = \<bar>force ! np_argmax (map abs force)\<bar>;
                yield_disp = (if K0 > 0 then max_force / K0 else 0);
                max_disp = \<bar>disp ! np_argmax (map abs disp)\<bar>
            in Inr (if yield_disp > 0 then max_disp / yield_disp else 1))"

text \<open>
  The choice of the method in \<^verbatim>\<open>calculate_ductility\<close>: the value of the checked radio
  button, where every value but the first six selects the elastic-yield method.
\<close>

datatype ductility_method = Geometric | Energy | Park | Farthest | ASCE | EEEP | ElasticYield

definition ductility :: "ductility_method \<Rightarrow> real list \<Rightarrow> real list \<Rightarrow> error + real" where
  "ductility method disp force =
     (case method of
        Geometric \<Rightarrow> calc_geometric_ductility disp force
      | Energy \<Rightarrow> calc_energy_ductility disp force
      | Park \<Rightarrow> calc_park_ductility disp force
      | Farthest \<Rightarrow> calc_farthest_ductility disp force
      | ASCE \<Rightarrow> calc_asce_ductility disp force
      | EEEP \<Rightarrow> calc_eeep_ductility disp force
      | ElasticYield \<Rightarrow> calc_elastic_yield_ductility disp force)"

text \<open>
  The yield displacement of each method, as the specification defines it: the value of
  \<open>yield_disp\<close> where the method computes one, \<open>None\<close> where it does not (a peak force or
  an initial stiffness of zero, a peak displacement below \<open>1e-6\<close>, no yield point found).
\<close>

definition trapezoid_sum :: "real list \<Rightarrow> real list \<Rightarrow> real" where
  "trapezoid_sum d f = (\<Sum>i < length d - 1. 0.5 * (f ! i + f ! (i + 1)) * (d ! (i + 1) - d ! i))"

definition peak_force_of :: "real list \<Rightarrow> real" where
  "peak_force_of force = Max (set (map abs force))"

definition initial_stiffness :: "real list \<Rightarrow> real list \<Rightarrow> real" where
  "initial_stiffness disp force =
     fold (\<lambda>i K0. if \<bar>disp ! i\<bar> > 1 / 10 ^ 6 then max K0 \<bar>force ! i / disp ! i\<bar> else K0)
          [1..<min 5 (length disp)] 0"

definition farthest_index :: "real list \<Rightarrow> real list \<Rightarrow> nat" where
  "farthest_index disp force =
     (let max_idx = np_argmax (map abs disp)
      in snd (foldl (farthest_step (disp ! max_idx) (force ! max_idx) disp force) (0, 0) [1..<max_idx]))"

definition yield_displacement :: "ductility_method \<Rightarrow> real list \<Rightarrow> real list \<Rightarrow> real option" where
  "yield_displacement method disp force =
     (case method of
        Geometric \<Rightarrow>
          Some \<bar>disp ! np_argmin (map (\<lambda>a. \<bar>a - 0.75 * peak_force_of force\<bar>)
                                   (take (np_argmax (map abs force) + 1) (map abs force)))\<bar>
      | Energy \<Rightarrow>
          (if peak_force_of force > 0
           then Some (2 * \<bar>trapezoid_sum disp force\<bar> / peak_force_of force) else None)
      | Park \<Rightarrow>
          (if length disp < 3 \<or> initial_stiffness disp force = 0 then None
           else (case List.find (\<lambda>i. \<bar>disp ! i\<bar> > 1 / 10 ^ 6 \<and>
                                      \<bar>force ! i / disp ! i\<bar> \<le> initial_stiffness disp force / 3)
                                [2..<length disp] of
                   None \<Rightarrow> None
                 | Some i \<Rightarrow> Some \<bar>disp ! i\<bar>))
      | Farthest \<Rightarrow>
          (if \<bar>disp ! np_argmax (map abs disp)\<bar> < 1 / 10 ^ 6 then None
           else Some \<bar>disp ! farthest_index disp force\<bar>)
      | ASCE \<Rightarrow>
          Some \<bar>disp ! np_argmin (map (\<lambda>a. \<bar>a - 0.6 * peak_force_of force\<bar>) (map abs force))\<bar>
      | EEEP \<Rightarrow>
          (if peak_force_of force > 0
           then Some (\<bar>trapezoid_sum disp force\<bar> / peak_force_of force) else None)
      | ElasticYield \<Rightarrow>
          (if initial_stiffness disp force = 0 then None
           else Some (peak_force_of force / initial_stiffness disp force)))"

text \<open>
  The displacement that each method divides by the yield displacement: the magnitude at the
  sample of the largest \<open>|disp|\<close>, except for the geometric method (the sample of the largest
  \<open>|force|\<close>) and the Park method (the last sample).
\<close>

definition magnitude_argmax_disp :: "real list \<Rightarrow> real" where
  "magnitude_argmax_disp disp = \<bar>disp ! np_argmax (map abs disp)\<bar>"

definition ultimate_displacement :: "ductility_method \<Rightarrow> real list \<Rightarrow> real list \<Rightarrow> real" where
  "ultimate_displacement method disp force =
     (case method of
        Geometric \<Rightarrow> \<bar>disp ! np_argmax (map abs force)\<bar>
      | Park \<Rightarrow> \<bar>last disp\<bar>
      | _ \<Rightarrow> magnitude_argmax_disp disp)"

text \<open>The ratio of the two, with the floor of 1 where no positive yield displacement exists.\<close>

definition ratio_or_one :: "ductility_method \<Rightarrow> real list \<Rightarrow> real list \<Rightarrow> real" where
  "ratio_or_one method disp force =
     (case yield_displacement method disp force of
        None \<Rightarrow> 1
      | Some y \<Rightarrow> if y > 0 then ultimate_displacement method disp force / y else 1)"

text \<open>
  A second stand-in, whose filter returns the window length and the polynomial order it is
  called with, so that a run of the smoothing shows both.
\<close>

definition window_probe_lib :: scipy where
  "window_probe_lib = stand_in_lib\<lparr>savgol_filter := (\<lambda>ys w p. Some [of_int w, of_int p])\<rparr>"




section \<open>Theorems: loop area\<close>

lemma area_loop_total:
  "\<forall>i \<in> set is. Suc i < length f \<Longrightarrow> \<exists>a. area_loop d f is a0 = Inr a"
  by (induction "is" arbitrary: a0) auto

lemma calculate_loop_area_nonneg:
  "calculate_loop_area d f = Inr a \<Longrightarrow> 0 \<le> a"
  by (auto simp: calculate_loop_area_def split: sum.splits)

lemma build_loops_area_nonneg:
  "build_loops d f ps = Inr ls \<Longrightarrow> l \<in> set ls \<Longrightarrow> 0 \<le> area l"
proof (induction d f ps arbitrary: ls rule: build_loops.induct)
  case (1 d f p q ps)
  show ?case
  proof (cases "length (slice d (pk_index p) (pk_index q + 1)) > 2")
    case True
    with "1.prems"(1) obtain a ls' where
      a: "calculate_loop_area (slice d (pk_index p) (pk_index q + 1)) (slice f (pk_index p) (pk_index q + 1)) = Inr a"
      and r: "build_loops d f (q # ps) = Inr ls'"
      and ls: "ls = \<lparr>loop_displacement = slice d (pk_index p) (pk_index q + 1),
                     loop_force = slice f (pk_index p) (pk_index q + 1),
                     peak_disp = pk_disp p, peak_force = pk_force p,
                     area = a, loop_type = pk_type p\<rparr> # ls'"
      by (auto simp: Let_def split: sum.splits)
    from "1.prems"(2) ls consider "area l = a" | "l \<in> set ls'" by auto
    then show ?thesis
    proof cases
      case 1
      then show ?thesis using calculate_loop_area_nonneg [OF a] by simp
    next
      case 2
      then show ?thesis using "1.IH"(1) [OF refl refl refl refl True a r] by simp
    qed
  next
    case False
    with "1.prems"(1) have "build_loops d f (q # ps) = Inr ls"
      by (simp add: Let_def)
    then show ?thesis using "1.IH"(2) [OF refl refl refl refl False] "1.prems"(2) by simp
  qed
qed simp_all


text \<open>
  C3. Every loop produced by the loop segmentation, with or without the first-loop filter,
  has a non-negative area.
\<close>

theorem loop_area_nonneg:
  assumes "extract_hysteresis_loops d f flt = Inr loops" and "l \<in> set loops"
  shows "0 \<le> area l"
proof -
  from assms(1) obtain d' f' ps where "build_loops d' f' ps = Inr loops"
    by (auto simp: extract_hysteresis_loops_def split: sum.splits prod.splits)
  then show ?thesis using assms(2) by (rule build_loops_area_nonneg)
qed

theorem loop_area_nonneg_witness:
  "extract_hysteresis_loops [0, 2, 4, 2, 0, -2, -4, -2, 0] [0, 10, 20, 15, 0, -10, -20, -15, 0] False
     = Inr [\<lparr>loop_displacement = [4, 2, 0, -2, -4], loop_force = [20, 15, 0, -10, -20],
           peak_disp = 4, peak_force = 20, area = 10, loop_type = Positive\<rparr>]
   \<and> 0 \<le> area \<lparr>loop_displacement = [4, 2, 0, -2, -4], loop_force = [20, 15, 0, -10, -20],
           peak_disp = 4, peak_force = 20, area = 10, loop_type = Positive\<rparr>"
proof -
  have e: "extract_hysteresis_loops [0, 2, 4, 2, 0, -2, -4, -2, 0] [0, 10, 20, 15, 0, -10, -20, -15, 0] False
     = Inr [\<lparr>loop_displacement = [4, 2, 0, -2, -4], loop_force = [20, 15, 0, -10, -20],
           peak_disp = 4, peak_force = 20, area = 10, loop_type = Positive\<rparr>]"
    by (simp add: extract_hysteresis_loops_def upt_rec slice_def calculate_loop_area_def)
  have "0 \<le> area \<lparr>loop_displacement = [4, 2, 0, -2, -4], loop_force = [20, 15, 0, -10, -20],
           peak_disp = 4, peak_force = 20, area = 10, loop_type = Positive\<rparr>"
    by (rule loop_area_nonneg [OF e]) simp
  with e show ?thesis by (rule conjI)
qed

section \<open>Theorems: skeleton curve\<close>

lemma branch_inv_start: "branch_inv 0 \<lparr>br_disp = [0], br_force = [y]\<rparr>"
  by (simp add: branch_inv_def)

lemma branch_inv_append:
  assumes "branch_inv m env" "\<bar>m\<bar> < \<bar>x\<bar>"
  shows "branch_inv x \<lparr>br_disp = br_disp env @ [x], br_force = br_force env @ [y]\<rparr>"
  using assms by (auto simp: branch_inv_def sorted_wrt_append)

lemma pos_envelope_loop_inv:
  "pos_envelope_loop dt ft d f is m env = Inr r \<Longrightarrow> 0 < dt \<Longrightarrow> 0 \<le> m \<Longrightarrow> branch_inv m env
   \<Longrightarrow> \<exists>m'. branch_inv m' r"
proof (induction "is" arbitrary: m env)
  case Nil
  then show ?case by auto
next
  case (Cons i "is")
  show ?case
  proof (cases "d ! i > dt \<and> d ! i > m + dt * 0.1 \<and> \<bar>f ! i\<bar> > ft")
    case True
    with Cons.prems(1) have r: "pos_envelope_loop dt ft d f is (d ! i)
        \<lparr>br_disp = br_disp env @ [d ! i], br_force = br_force env @ [f ! i]\<rparr> = Inr r"
      by (simp split: if_splits)
    from True Cons.prems(2,3) have lt: "\<bar>m\<bar> < \<bar>d ! i\<bar>" and nn: "0 \<le> d ! i"
      by (auto simp: abs_if mult_pos_pos intro: less_trans)
    show ?thesis
      by (rule Cons.IH [OF r Cons.prems(2) nn branch_inv_append [OF Cons.prems(4) lt]])
  next
    case False
    with Cons.prems(1) have "pos_envelope_loop dt ft d f is m env = Inr r"
      by (auto split: if_splits)
    then show ?thesis using Cons.IH Cons.prems by blast
  qed
qed

lemma neg_envelope_loop_inv:
  "neg_envelope_loop dt ft d f is m env = Inr r \<Longrightarrow> 0 < dt \<Longrightarrow> m \<le> 0 \<Longrightarrow> branch_inv m env
   \<Longrightarrow> \<exists>m'. branch_inv m' r"
proof (induction "is" arbitrary: m env)
  case Nil
  then show ?case by auto
next
  case (Cons i "is")
  show ?case
  proof (cases "d ! i < - dt \<and> d ! i < m - dt * 0.1 \<and> \<bar>f ! i\<bar> > ft")
    case True
    with Cons.prems(1) have r: "neg_envelope_loop dt ft d f is (d ! i)
        \<lparr>br_disp = br_disp env @ [d ! i], br_force = br_force env @ [f ! i]\<rparr> = Inr r"
      by (simp split: if_splits)
    from True Cons.prems(2,3) have lt: "\<bar>m\<bar> < \<bar>d ! i\<bar>" and nn: "d ! i \<le> 0"
      by (auto simp: abs_if)
    show ?thesis
      by (rule Cons.IH [OF r Cons.prems(2) nn branch_inv_append [OF Cons.prems(4) lt]])
  next
    case False
    with Cons.prems(1) have "neg_envelope_loop dt ft d f is m env = Inr r"
      by (auto split: if_splits)
    then show ?thesis using Cons.IH Cons.prems by blast
  qed
qed

lemma pos_peaks_loop_inv:
  "0 < dt \<Longrightarrow> 0 \<le> m \<Longrightarrow> branch_inv m br \<Longrightarrow> \<exists>m'. branch_inv m' (pos_peaks_loop dt ps m br)"
proof (induction ps arbitrary: m br)
  case Nil
  then show ?case by auto
next
  case (Cons p ps)
  show ?case
  proof (cases "pk_disp p > m + dt * 0.1")
    case True
    with Cons.prems have lt: "\<bar>m\<bar> < \<bar>pk_disp p\<bar>" and nn: "0 \<le> pk_disp p"
      by (auto simp: abs_if)
    from True show ?thesis
      using Cons.IH [OF Cons.prems(1) nn branch_inv_append [OF Cons.prems(3) lt]] by simp
  next
    case False
    then show ?thesis using Cons.IH [OF Cons.prems] by simp
  qed
qed

lemma neg_peaks_loop_inv:
  "0 < dt \<Longrightarrow> branch_inv m br \<Longrightarrow> \<exists>m'. branch_inv m' (neg_peaks_loop dt ps m br)"
proof (induction ps arbitrary: m br)
  case Nil
  then show ?case by auto
next
  case (Cons p ps)
  show ?case
  proof (cases "\<bar>pk_disp p\<bar> > \<bar>m\<bar> + dt * 0.1")
    case True
    with Cons.prems have lt: "\<bar>m\<bar> < \<bar>pk_disp p\<bar>"
      by auto
    from True show ?thesis
      using Cons.IH [OF Cons.prems(1) branch_inv_append [OF Cons.prems(2) lt]] by simp
  next
    case False
    then show ?thesis using Cons.IH [OF Cons.prems] by simp
  qed
qed

lemma branch_inv_nth:
  assumes "branch_inv m b" "1 \<le> i" "i < length (br_disp b)"
  shows "\<bar>br_disp b ! (i - 1)\<bar> < \<bar>br_disp b ! i\<bar>"
proof -
  from assms(1) have "sorted_wrt (<) (map abs (br_disp b))" by (simp add: branch_inv_def)
  moreover have "i - 1 < i" "i < length (map abs (br_disp b))" using assms(2,3) by auto
  ultimately have "map abs (br_disp b) ! (i - 1) < map abs (br_disp b) ! i"
    by (rule sorted_wrt_nth_less)
  then show ?thesis using assms(2,3) by simp
qed

lemma max_thr_pos: "0 < max (0.01::real) x"
  by simp

text \<open>
  C1. For both extraction methods, every branch of a returned skeleton curve begins at
  displacement 0, and the magnitude of its displacement increases strictly from each
  point to the next.
\<close>

theorem skeleton_branches_monotone:
  assumes "extract_outer_envelope d f = Inr sk \<or> extract_peak_points d f = Inr sk"
    and "b = positive sk \<or> b = negative sk"
  shows "br_disp b \<noteq> [] \<and> hd (br_disp b) = 0 \<and>
         (\<forall>i. 1 \<le> i \<and> i < length (br_disp b) \<longrightarrow> \<bar>br_disp b ! i\<bar> > \<bar>br_disp b ! (i - 1)\<bar>)"
proof -
  have "\<exists>m. branch_inv m b"
    using assms(1)
  proof
    assume "extract_outer_envelope d f = Inr sk"
    then obtain p n where
      p: "pos_envelope_loop (max 0.01 (max_abs d * 0.005)) (max 0.01 (max_abs f * 0.01)) d f
            [0..<length d] 0 \<lparr>br_disp = [0], br_force = [0]\<rparr> = Inr p"
      and n: "neg_envelope_loop (max 0.01 (max_abs d * 0.005)) (max 0.01 (max_abs f * 0.01)) d f
            [0..<length d] 0 \<lparr>br_disp = [0], br_force = [0]\<rparr> = Inr n"
      and sk: "sk = \<lparr>positive = p, negative = n\<rparr>"
      by (auto simp: extract_outer_envelope_def Let_def split: if_splits sum.splits)
    have "\<exists>m. branch_inv m p"
      by (rule pos_envelope_loop_inv [OF p max_thr_pos order_refl branch_inv_start])
    moreover have "\<exists>m. branch_inv m n"
      by (rule neg_envelope_loop_inv [OF n max_thr_pos order_refl branch_inv_start])
    ultimately show ?thesis using assms(2) sk by auto
  next
    assume "extract_peak_points d f = Inr sk"
    then obtain ps y where
      sk: "sk = \<lparr>positive = pos_peaks_loop (max 0.01 (max_abs d * 0.01))
                   (sort_key pk_disp (filter (\<lambda>p. pk_type p = Positive) ps)) 0
                   \<lparr>br_disp = [0], br_force = [y]\<rparr>,
                 negative = neg_peaks_loop (max 0.01 (max_abs d * 0.01))
                   (sort_key (\<lambda>p. \<bar>pk_disp p\<bar>) (filter (\<lambda>p. pk_type p = Negative) ps)) 0
                   \<lparr>br_disp = [0], br_force = [y]\<rparr>\<rparr>"
      by (auto simp: extract_peak_points_def Let_def split: if_splits sum.splits)
    show ?thesis
      using assms(2) unfolding sk
      using pos_peaks_loop_inv [OF max_thr_pos order_refl branch_inv_start]
            neg_peaks_loop_inv [OF max_thr_pos branch_inv_start]
      by auto
  qed
  then obtain m where m: "branch_inv m b" ..
  then have "br_disp b \<noteq> []" "hd (br_disp b) = 0" by (simp_all add: branch_inv_def)
  moreover have "\<forall>i. 1 \<le> i \<and> i < length (br_disp b) \<longrightarrow> \<bar>br_disp b ! i\<bar> > \<bar>br_disp b ! (i - 1)\<bar>"
    using branch_inv_nth [OF m] by blast
  ultimately show ?thesis by blast
qed

theorem skeleton_branches_monotone_witness:
  "extract_outer_envelope [0, 2, 4, 2, 0, -2, -4, -2, 0] [0, 10, 20, 15, 0, -10, -20, -15, 0]
     = Inr \<lparr>positive = \<lparr>br_disp = [0, 2, 4], br_force = [0, 10, 20]\<rparr>,
            negative = \<lparr>br_disp = [0, -2, -4], br_force = [0, -10, -20]\<rparr>\<rparr>
   \<and> hd [0, - 2, - 4 :: real] = 0
   \<and> \<bar>[0, - 2, - 4 :: real] ! 1\<bar> > \<bar>[0, - 2, - 4 :: real] ! (1 - 1)\<bar>
   \<and> \<bar>[0, - 2, - 4 :: real] ! 2\<bar> > \<bar>[0, - 2, - 4 :: real] ! (2 - 1)\<bar>"
proof -
  have e: "extract_outer_envelope [0, 2, 4, 2, 0, -2, -4, -2, 0] [0, 10, 20, 15, 0, -10, -20, -15, 0]
     = Inr \<lparr>positive = \<lparr>br_disp = [0, 2, 4], br_force = [0, 10, 20]\<rparr>,
            negative = \<lparr>br_disp = [0, -2, -4], br_force = [0, -10, -20]\<rparr>\<rparr>"
    by (simp add: extract_outer_envelope_def max_abs_def upt_rec)
  show ?thesis
    using skeleton_branches_monotone [OF disjI1 [OF e] disjI2 [OF refl]] e by simp
qed

text \<open>Both methods return a curve for every non-empty series with a force sample for each
  displacement sample.\<close>

lemma pos_envelope_loop_total:
  "\<forall>i \<in> set is. i < length f \<Longrightarrow> \<exists>r. pos_envelope_loop dt ft d f is m env = Inr r"
  by (induction "is" arbitrary: m env) auto

lemma neg_envelope_loop_total:
  "\<forall>i \<in> set is. i < length f \<Longrightarrow> \<exists>r. neg_envelope_loop dt ft d f is m env = Inr r"
  by (induction "is" arbitrary: m env) auto

lemma extract_outer_envelope_returns:
  assumes "d \<noteq> []" "length d \<le> length f"
  shows "\<exists>sk. extract_outer_envelope d f = Inr sk"
proof -
  have f: "f \<noteq> []" using assms by auto
  have b: "\<forall>i \<in> set [0..<length d]. i < length f" using assms(2) by auto
  obtain p where p: "pos_envelope_loop (max 0.01 (max_abs d * 0.005)) (max 0.01 (max_abs f * 0.01)) d f
            [0..<length d] 0 \<lparr>br_disp = [0], br_force = [0]\<rparr> = Inr p"
    using pos_envelope_loop_total [OF b] by blast
  obtain n where n: "neg_envelope_loop (max 0.01 (max_abs d * 0.005)) (max 0.01 (max_abs f * 0.01)) d f
            [0..<length d] 0 \<lparr>br_disp = [0], br_force = [0]\<rparr> = Inr n"
    using neg_envelope_loop_total [OF b] by blast
  show ?thesis using assms(1) f p n by (simp add: extract_outer_envelope_def)
qed

lemma all_peaks_loop_total:
  "\<forall>i \<in> set is. i < length f \<Longrightarrow>
   \<exists>ps. all_peaks_loop dt d f is = Inr ps \<and> pk_index ` set ps \<subseteq> set is"
proof (induction "is")
  case Nil
  then show ?case by simp
next
  case (Cons i "is")
  then obtain ps where "all_peaks_loop dt d f is = Inr ps" "pk_index ` set ps \<subseteq> set is"
    by auto
  with Cons.prems show ?case by auto
qed

lemma crossing_loop_total:
  "\<forall>j \<in> set js. j + 1 < length f \<Longrightarrow> \<exists>y. crossing_loop d f js = Inr y"
  by (induction js) (auto simp: Let_def)

lemma second_pos_peak_idx_in:
  "second_pos_peak_idx ps = Some e \<Longrightarrow> e \<in> pk_index ` set ps"
proof -
  assume a: "second_pos_peak_idx ps = Some e"
  then obtain p q rest where "filter (\<lambda>p. pk_type p = Positive) ps = p # q # rest" "e = pk_index q"
    by (auto simp: second_pos_peak_idx_def split: list.splits)
  then have "q \<in> set (filter (\<lambda>p. pk_type p = Positive) ps)" by simp
  then show ?thesis using \<open>e = pk_index q\<close> by auto
qed

lemma extract_peak_points_returns:
  assumes "d \<noteq> []" "length d \<le> length f"
  shows "\<exists>sk. extract_peak_points d f = Inr sk"
proof -
  let ?dt = "max 0.01 (max_abs d * 0.01)"
  have b: "\<forall>i \<in> set [1..<length d - 1]. i < length f" using assms(2) by auto
  obtain ps where ps: "all_peaks_loop ?dt d f [1..<length d - 1] = Inr ps"
    and sub: "pk_index ` set ps \<subseteq> set [1..<length d - 1]"
    using all_peaks_loop_total [OF b] by blast
  have "\<exists>y. common_y_intercept d f ps = Inr y"
  proof (cases "first_neg_peak_idx ps")
    case None
    then show ?thesis by (simp add: common_y_intercept_def)
  next
    case (Some s)
    show ?thesis
    proof (cases "second_pos_peak_idx ps")
      case None
      then show ?thesis using Some by (simp add: common_y_intercept_def)
    next
      case (Some e)
      from second_pos_peak_idx_in [OF Some] sub have "e < length d - 1" by auto
      then have "\<forall>j \<in> set [s..<e]. j + 1 < length f" using assms(2) by auto
      from crossing_loop_total [OF this] show ?thesis
        using Some \<open>first_neg_peak_idx ps = Some s\<close> by (simp add: common_y_intercept_def)
    qed
  qed
  then obtain y where "common_y_intercept d f ps = Inr y" ..
  then show ?thesis using assms(1) ps by (simp add: extract_peak_points_def Let_def)
qed

section \<open>Theorems: preprocessing\<close>

lemma find_similar_None: "find_similar tol c m = None \<longleftrightarrow> (\<forall>kv \<in> set m. \<not> \<bar>c - fst kv\<bar> \<le> tol)"
  by (induction m) (auto split: if_splits)

lemma find_similar_Some:
  "find_similar tol c m = Some kv \<Longrightarrow> kv \<in> set m \<and> \<bar>c - fst kv\<bar> \<le> tol"
  by (induction m) (auto split: if_splits)

lemma set_dict_del: "set (dict_del k m) = {kv \<in> set m. fst kv \<noteq> k}"
  by (auto simp: dict_del_def)

lemma dict_set_new: "k \<notin> fst ` set m \<Longrightarrow> dict_set k v m = m @ [(k, v)]"
  by (simp add: dict_set_def)

lemma dict_ok_del: "dict_ok i m \<Longrightarrow> dict_ok i (dict_del k m)"
  by (auto simp: dict_ok_def dict_del_def distinct_map_filter)

lemma dict_ok_set:
  assumes "dict_ok i m"
  shows "dict_ok (Suc i) (dict_set k i m)"
proof (cases "k \<in> fst ` set m")
  case False
  then show ?thesis using assms by (fastforce simp: dict_ok_def dict_set_def)
next
  case True
  let ?g = "\<lambda>kv. if fst kv = k then (k, i) else kv"
  have m': "dict_set k i m = map ?g m" using True by (simp add: dict_set_def)
  have fst_eq: "map fst (map ?g m) = map fst m" by (induction m) auto
  from assms have dm: "distinct m" and injf: "inj_on fst (set m)" and injs: "inj_on snd (set m)"
    and lt: "\<forall>kv \<in> set m. snd kv < i"
    by (auto simp: dict_ok_def distinct_map)
  have "inj_on (snd \<circ> ?g) (set m)"
  proof (rule inj_onI)
    fix a b assume a: "a \<in> set m" and b: "b \<in> set m" and e: "(snd \<circ> ?g) a = (snd \<circ> ?g) b"
    show "a = b"
    proof (cases "fst a = k"; cases "fst b = k")
      assume "fst a = k" "fst b = k"
      then show ?thesis using injf a b by (auto dest: inj_onD)
    next
      assume "fst a = k" "fst b \<noteq> k"
      then show ?thesis using e lt b by auto
    next
      assume "fst a \<noteq> k" "fst b = k"
      then show ?thesis using e lt a by auto
    next
      assume "fst a \<noteq> k" "fst b \<noteq> k"
      then show ?thesis using e injs a b by (auto dest: inj_onD)
    qed
  qed
  then have "distinct (map snd (map ?g m))" using dm by (simp add: distinct_map)
  moreover have "\<forall>kv \<in> set (map ?g m). snd kv < Suc i" using lt by auto
  ultimately show ?thesis using assms unfolding m' dict_ok_def fst_eq by simp
qed

lemma dict_ok_mono: "dict_ok i m \<Longrightarrow> dict_ok (Suc i) m"
  by (auto simp: dict_ok_def)

lemma dict_ok_step: "dict_ok i m \<Longrightarrow> dict_ok (Suc i) (dedup_step tol dc fc m i)"
  by (auto simp: dedup_step_def dict_ok_set dict_ok_del dict_ok_mono split: option.splits)

lemma dict_ok_fold: "dict_ok n (foldl (dedup_step tol dc fc) [] [0..<n])"
  by (induction n) (auto simp: dict_ok_step, simp add: dict_ok_def)

lemma unique_indices_sorted: "sorted_wrt (<) (unique_indices tol dc fc)"
proof -
  have "dict_ok (length dc) (disp_to_max_force_idx tol dc fc)"
    unfolding disp_to_max_force_idx_def by (rule dict_ok_fold)
  then have "distinct (map snd (disp_to_max_force_idx tol dc fc))" by (simp add: dict_ok_def)
  then show ?thesis by (simp add: unique_indices_def strict_sorted_iff)
qed

lemma unique_indices_bound: "i \<in> set (unique_indices tol dc fc) \<Longrightarrow> i < length dc"
proof -
  have "dict_ok (length dc) (disp_to_max_force_idx tol dc fc)"
    unfolding disp_to_max_force_idx_def by (rule dict_ok_fold)
  then show "i \<in> set (unique_indices tol dc fc) \<Longrightarrow> i < length dc"
    by (auto simp: dict_ok_def unique_indices_def)
qed

lemma tol_transitiveD:
  "tol_transitive tol dc \<Longrightarrow> a \<in> set dc \<Longrightarrow> b \<in> set dc \<Longrightarrow> c \<in> set dc \<Longrightarrow>
   \<bar>a - b\<bar> \<le> tol \<Longrightarrow> \<bar>b - c\<bar> \<le> tol \<Longrightarrow> \<bar>a - c\<bar> \<le> tol"
  unfolding tol_transitive_def by blast

lemma dedup_step_Some:
  "find_similar tol (dc ! i) m = Some skv \<Longrightarrow>
   dedup_step tol dc fc m i =
     (if \<bar>fc ! i\<bar> > \<bar>fc ! snd skv\<bar> then dict_set (dc ! i) i (dict_del (fst skv) m) else m)"
  by (cases skv) (simp add: dedup_step_def)

lemma dedup_step_inv:
  assumes tol: "0 \<le> tol" and T: "tol_transitive tol dc" and i: "i < length dc"
    and inv: "dedup_inv tol dc fc i m"
  shows "dedup_inv tol dc fc (Suc i) (dedup_step tol dc fc m i)"
proof -
  let ?c = "dc ! i"
  have cin: "?c \<in> set dc" using i by simp
  have key: "\<And>kv. kv \<in> set m \<Longrightarrow> snd kv < i \<and> fst kv = dc ! snd kv"
    using inv unfolding dedup_inv_def by blast
  have kin: "\<And>kv. kv \<in> set m \<Longrightarrow> fst kv \<in> set dc"
    using key i by (metis less_trans nth_mem)
  have far: "\<And>kv kv'. kv \<in> set m \<Longrightarrow> kv' \<in> set m \<Longrightarrow> kv \<noteq> kv' \<Longrightarrow> \<not> \<bar>fst kv - fst kv'\<bar> \<le> tol"
    using inv unfolding dedup_inv_def by blast
  have rep: "\<And>j. j < i \<Longrightarrow> \<exists>kv \<in> set m. \<bar>dc ! j - fst kv\<bar> \<le> tol \<and>
          (\<bar>fc ! j\<bar> < \<bar>fc ! snd kv\<bar> \<or> (\<bar>fc ! j\<bar> = \<bar>fc ! snd kv\<bar> \<and> snd kv \<le> j))"
    using inv unfolding dedup_inv_def by blast
  show ?thesis
  proof (cases "find_similar tol ?c m")
    case None
    then have nofar: "\<And>kv. kv \<in> set m \<Longrightarrow> \<not> \<bar>?c - fst kv\<bar> \<le> tol"
      by (simp add: find_similar_None)
    have notin: "?c \<notin> fst ` set m"
    proof
      assume "?c \<in> fst ` set m"
      then obtain kv where "kv \<in> set m" "fst kv = ?c" by auto
      with nofar [of kv] tol show False by simp
    qed
    have step: "dedup_step tol dc fc m i = m @ [(?c, i)]"
      using None notin by (simp add: dedup_step_def dict_set_new)
    have c1: "\<forall>kv \<in> set (m @ [(?c, i)]). snd kv < Suc i \<and> fst kv = dc ! snd kv"
      using key by (auto simp: less_Suc_eq)
    have c2: "\<forall>kv \<in> set (m @ [(?c, i)]). \<forall>kv' \<in> set (m @ [(?c, i)]).
                kv \<noteq> kv' \<longrightarrow> \<not> \<bar>fst kv - fst kv'\<bar> \<le> tol"
      using far nofar by (auto simp: abs_minus_commute)
    have c3: "\<forall>j < Suc i. \<exists>kv \<in> set (m @ [(?c, i)]). \<bar>dc ! j - fst kv\<bar> \<le> tol \<and>
          (\<bar>fc ! j\<bar> < \<bar>fc ! snd kv\<bar> \<or> (\<bar>fc ! j\<bar> = \<bar>fc ! snd kv\<bar> \<and> snd kv \<le> j))"
    proof (intro allI impI)
      fix j assume "j < Suc i"
      then consider "j < i" | "j = i" by (auto simp: less_Suc_eq)
      then show "\<exists>kv \<in> set (m @ [(?c, i)]). \<bar>dc ! j - fst kv\<bar> \<le> tol \<and>
          (\<bar>fc ! j\<bar> < \<bar>fc ! snd kv\<bar> \<or> (\<bar>fc ! j\<bar> = \<bar>fc ! snd kv\<bar> \<and> snd kv \<le> j))"
      proof cases
        case 1
        from rep [OF 1] show ?thesis by auto
      next
        case 2
        then show ?thesis using tol by auto
      qed
    qed
    show ?thesis unfolding step dedup_inv_def using c1 c2 c3 by blast
  next
    case (Some skv)
    then have sin: "skv \<in> set m" and sclose: "\<bar>?c - fst skv\<bar> \<le> tol"
      using find_similar_Some by blast+
    show ?thesis
    proof (cases "\<bar>fc ! i\<bar> > \<bar>fc ! snd skv\<bar>")
      case False
      then have step: "dedup_step tol dc fc m i = m"
        using dedup_step_Some [OF Some] by simp
      have c1: "\<forall>kv \<in> set m. snd kv < Suc i \<and> fst kv = dc ! snd kv"
        using key by (auto simp: less_Suc_eq)
      have c3: "\<forall>j < Suc i. \<exists>kv \<in> set m. \<bar>dc ! j - fst kv\<bar> \<le> tol \<and>
          (\<bar>fc ! j\<bar> < \<bar>fc ! snd kv\<bar> \<or> (\<bar>fc ! j\<bar> = \<bar>fc ! snd kv\<bar> \<and> snd kv \<le> j))"
      proof (intro allI impI)
        fix j assume "j < Suc i"
        then consider "j < i" | "j = i" by (auto simp: less_Suc_eq)
        then show "\<exists>kv \<in> set m. \<bar>dc ! j - fst kv\<bar> \<le> tol \<and>
          (\<bar>fc ! j\<bar> < \<bar>fc ! snd kv\<bar> \<or> (\<bar>fc ! j\<bar> = \<bar>fc ! snd kv\<bar> \<and> snd kv \<le> j))"
        proof cases
          case 1
          from rep [OF 1] show ?thesis by auto
        next
          case 2
          have "snd skv \<le> i" using key [OF sin] by simp
          with False sclose sin 2 show ?thesis
            by (intro bexI [of _ skv]) auto
        qed
      qed
      show ?thesis unfolding step dedup_inv_def using c1 far c3 by blast
    next
      case True
      let ?m = "dict_del (fst skv) m"
      have setm: "set ?m = {kv \<in> set m. fst kv \<noteq> fst skv}" by (rule set_dict_del)
      have others: "\<And>kv. kv \<in> set ?m \<Longrightarrow> kv \<in> set m \<and> kv \<noteq> skv"
        by (auto simp: setm)
      have gone: "\<And>kv. kv \<in> set m \<Longrightarrow> kv \<notin> set ?m \<Longrightarrow> kv = skv"
      proof -
        fix kv assume a: "kv \<in> set m" "kv \<notin> set ?m"
        then have "fst kv = fst skv" by (simp add: setm)
        then have "\<bar>fst kv - fst skv\<bar> \<le> tol" using tol by simp
        with far [OF a(1) sin] show "kv = skv" by blast
      qed
      have nofar: "\<And>kv. kv \<in> set ?m \<Longrightarrow> \<not> \<bar>?c - fst kv\<bar> \<le> tol"
      proof
        fix kv assume a: "kv \<in> set ?m" and cl: "\<bar>?c - fst kv\<bar> \<le> tol"
        from others [OF a] have km: "kv \<in> set m" and ne: "kv \<noteq> skv" by auto
        have "\<bar>fst skv - ?c\<bar> \<le> tol" using sclose by (simp add: abs_minus_commute)
        from tol_transitiveD [OF T kin [OF sin] cin kin [OF km] this cl]
        have "\<bar>fst skv - fst kv\<bar> \<le> tol" .
        with far [OF sin km] ne show False by blast
      qed
      have notin: "?c \<notin> fst ` set ?m"
      proof
        assume "?c \<in> fst ` set ?m"
        then obtain kv where "kv \<in> set ?m" "fst kv = ?c" by auto
        with nofar [of kv] tol show False by simp
      qed
      have step: "dedup_step tol dc fc m i = ?m @ [(?c, i)]"
        using dedup_step_Some [OF Some] True notin by (simp add: dict_set_new)
      have c1: "\<forall>kv \<in> set (?m @ [(?c, i)]). snd kv < Suc i \<and> fst kv = dc ! snd kv"
        using key others by (auto simp: less_Suc_eq)
      have c2: "\<forall>kv \<in> set (?m @ [(?c, i)]). \<forall>kv' \<in> set (?m @ [(?c, i)]).
                kv \<noteq> kv' \<longrightarrow> \<not> \<bar>fst kv - fst kv'\<bar> \<le> tol"
      proof (intro ballI impI)
        fix kv kv' assume a: "kv \<in> set (?m @ [(?c, i)])" and b: "kv' \<in> set (?m @ [(?c, i)])"
          and ne: "kv \<noteq> kv'"
        from a consider "kv \<in> set ?m" | "kv = (?c, i)" by auto
        then show "\<not> \<bar>fst kv - fst kv'\<bar> \<le> tol"
        proof cases
          case 1
          from b consider "kv' \<in> set ?m" | "kv' = (?c, i)" by auto
          then show ?thesis
          proof cases
            case 1
            with \<open>kv \<in> set ?m\<close> others far ne show ?thesis by blast
          next
            case 2
            with nofar [OF \<open>kv \<in> set ?m\<close>] show ?thesis by (simp add: abs_minus_commute)
          qed
        next
          case 2
          with b ne have "kv' \<in> set ?m" by auto
          with nofar [OF this] 2 show ?thesis by simp
        qed
      qed
      have c3: "\<forall>j < Suc i. \<exists>kv \<in> set (?m @ [(?c, i)]). \<bar>dc ! j - fst kv\<bar> \<le> tol \<and>
          (\<bar>fc ! j\<bar> < \<bar>fc ! snd kv\<bar> \<or> (\<bar>fc ! j\<bar> = \<bar>fc ! snd kv\<bar> \<and> snd kv \<le> j))"
      proof (intro allI impI)
        fix j assume "j < Suc i"
        then consider "j < i" | "j = i" by (auto simp: less_Suc_eq)
        then show "\<exists>kv \<in> set (?m @ [(?c, i)]). \<bar>dc ! j - fst kv\<bar> \<le> tol \<and>
          (\<bar>fc ! j\<bar> < \<bar>fc ! snd kv\<bar> \<or> (\<bar>fc ! j\<bar> = \<bar>fc ! snd kv\<bar> \<and> snd kv \<le> j))"
        proof cases
          case 1
          from rep [OF 1] obtain kv where kv: "kv \<in> set m" "\<bar>dc ! j - fst kv\<bar> \<le> tol"
            "\<bar>fc ! j\<bar> < \<bar>fc ! snd kv\<bar> \<or> (\<bar>fc ! j\<bar> = \<bar>fc ! snd kv\<bar> \<and> snd kv \<le> j)"
            by blast
          show ?thesis
          proof (cases "kv \<in> set ?m")
            case True
            with kv show ?thesis by auto
          next
            case False
            from gone [OF kv(1) False] have e: "kv = skv" .
            have jin: "dc ! j \<in> set dc" using 1 i by simp
            have "\<bar>fst skv - ?c\<bar> \<le> tol" using sclose by (simp add: abs_minus_commute)
            from tol_transitiveD [OF T jin kin [OF sin] cin _ this] kv(2) e
            have "\<bar>dc ! j - ?c\<bar> \<le> tol" by simp
            moreover have "\<bar>fc ! j\<bar> < \<bar>fc ! i\<bar>" using kv(3) e \<open>\<bar>fc ! i\<bar> > \<bar>fc ! snd skv\<bar>\<close> by auto
            ultimately show ?thesis by auto
          qed
        next
          case 2
          then show ?thesis using tol by auto
        qed
      qed
      show ?thesis unfolding step dedup_inv_def using c1 c2 c3 by blast
    qed
  qed
qed

lemma dedup_inv_fold:
  assumes "0 \<le> tol" "tol_transitive tol dc"
  shows "n \<le> length dc \<Longrightarrow> dedup_inv tol dc fc n (foldl (dedup_step tol dc fc) [] [0..<n])"
proof (induction n)
  case 0
  show ?case by (simp add: dedup_inv_def)
next
  case (Suc n)
  then have "n < length dc" "dedup_inv tol dc fc n (foldl (dedup_step tol dc fc) [] [0..<n])"
    by auto
  from dedup_step_inv [OF assms this] show ?case by simp
qed

lemma unique_indices_groups:
  assumes tol: "0 \<le> tol" and T: "tol_transitive tol dc"
  shows "set (unique_indices tol dc fc) = {v. first_max_in_group tol dc fc v}"
proof -
  let ?m = "disp_to_max_force_idx tol dc fc"
  have inv: "dedup_inv tol dc fc (length dc) ?m"
    unfolding disp_to_max_force_idx_def by (rule dedup_inv_fold [OF assms order_refl])
  have key: "\<And>kv. kv \<in> set ?m \<Longrightarrow> snd kv < length dc \<and> fst kv = dc ! snd kv"
    using inv unfolding dedup_inv_def by blast
  have far: "\<And>kv kv'. kv \<in> set ?m \<Longrightarrow> kv' \<in> set ?m \<Longrightarrow> \<bar>fst kv - fst kv'\<bar> \<le> tol \<Longrightarrow> kv = kv'"
    using inv unfolding dedup_inv_def by blast
  have rep: "\<And>j. j < length dc \<Longrightarrow> \<exists>kv \<in> set ?m. \<bar>dc ! j - fst kv\<bar> \<le> tol \<and>
          (\<bar>fc ! j\<bar> < \<bar>fc ! snd kv\<bar> \<or> (\<bar>fc ! j\<bar> = \<bar>fc ! snd kv\<bar> \<and> snd kv \<le> j))"
    using inv unfolding dedup_inv_def by blast
  have set_eq: "set (unique_indices tol dc fc) = snd ` set ?m"
    by (simp add: unique_indices_def)
  show ?thesis
  proof (intro equalityI subsetI)
    fix v assume "v \<in> set (unique_indices tol dc fc)"
    then obtain kv where kv: "kv \<in> set ?m" "snd kv = v" unfolding set_eq by auto
    from key [OF kv(1)] kv(2) have v: "v < length dc" and k: "fst kv = dc ! v" by auto
    have "\<bar>fc ! j\<bar> < \<bar>fc ! v\<bar> \<or> (\<bar>fc ! j\<bar> = \<bar>fc ! v\<bar> \<and> v \<le> j)"
      if j: "j < length dc" and cl: "\<bar>dc ! j - dc ! v\<bar> \<le> tol" for j
    proof -
      from rep [OF j] obtain kv' where kv': "kv' \<in> set ?m" "\<bar>dc ! j - fst kv'\<bar> \<le> tol"
        "\<bar>fc ! j\<bar> < \<bar>fc ! snd kv'\<bar> \<or> (\<bar>fc ! j\<bar> = \<bar>fc ! snd kv'\<bar> \<and> snd kv' \<le> j)"
        by blast
      have in': "fst kv' \<in> set dc" using key [OF kv'(1)] by (metis nth_mem)
      have "\<bar>dc ! v - dc ! j\<bar> \<le> tol" using cl by (simp add: abs_minus_commute)
      from tol_transitiveD [OF T _ _ in' this kv'(2)] v j
      have "\<bar>fst kv - fst kv'\<bar> \<le> tol" by (simp add: k)
      from far [OF kv(1) kv'(1) this] kv'(3) kv(2) show ?thesis by simp
    qed
    then show "v \<in> {v. first_max_in_group tol dc fc v}"
      using v by (simp add: first_max_in_group_def)
  next
    fix v assume "v \<in> {v. first_max_in_group tol dc fc v}"
    then have v: "v < length dc"
      and fm: "\<And>j. j < length dc \<Longrightarrow> \<bar>dc ! j - dc ! v\<bar> \<le> tol \<Longrightarrow>
                 \<bar>fc ! j\<bar> < \<bar>fc ! v\<bar> \<or> (\<bar>fc ! j\<bar> = \<bar>fc ! v\<bar> \<and> v \<le> j)"
      by (auto simp: first_max_in_group_def)
    from rep [OF v] obtain kv where kv: "kv \<in> set ?m" "\<bar>dc ! v - fst kv\<bar> \<le> tol"
        "\<bar>fc ! v\<bar> < \<bar>fc ! snd kv\<bar> \<or> (\<bar>fc ! v\<bar> = \<bar>fc ! snd kv\<bar> \<and> snd kv \<le> v)"
      by blast
    from key [OF kv(1)] have w: "snd kv < length dc" and k: "fst kv = dc ! snd kv" by auto
    have "\<bar>dc ! snd kv - dc ! v\<bar> \<le> tol" using kv(2) k by (simp add: abs_minus_commute)
    from fm [OF w this] kv(3) have "snd kv = v" by auto
    with kv(1) show "v \<in> set (unique_indices tol dc fc)" unfolding set_eq by force
  qed
qed

lemma find_upt_first:
  assumes "i < n" "P i" "\<forall>j < i. \<not> P j"
  shows "List.find P [0..<n] = Some i"
  unfolding find_Some_iff using assms by (intro exI [of _ i]) auto

lemma find_upt_none: "\<forall>i < n. \<not> P i \<Longrightarrow> List.find P [0..<n] = None"
  by (simp add: find_None_iff)

text \<open>
  C9 (amended). If the first sample of the deduplicated series beyond twice a threshold is
  sample \<open>i\<close>, the displacement series is shifted by that sample's displacement when
  \<open>i > 0\<close> and is left as it is when \<open>i = 0\<close>; without such a sample there is no shift.
\<close>

theorem rezero_first_exceeding:
  "(i < length dc \<and> exceeds thr fthr dc fc i \<and> (\<forall>j < i. \<not> exceeds thr fthr dc fc j)
      \<longrightarrow> rezero thr fthr dc fc = (if i = 0 then dc else map (\<lambda>x. x - dc ! i) dc))
   \<and> ((\<forall>i < length dc. \<not> exceeds thr fthr dc fc i) \<longrightarrow> rezero thr fthr dc fc = dc)"
proof (intro conjI impI)
  assume a: "i < length dc \<and> exceeds thr fthr dc fc i \<and> (\<forall>j < i. \<not> exceeds thr fthr dc fc j)"
  then have "List.find (exceeds thr fthr dc fc) [0..<length dc] = Some i"
    by (intro find_upt_first) auto
  then have "loading_start_idx thr fthr dc fc = i"
    by (simp add: loading_start_idx_def exceeds_def [abs_def])
  then show "rezero thr fthr dc fc = (if i = 0 then dc else map (\<lambda>x. x - dc ! i) dc)"
    by (simp add: rezero_def)
next
  assume "\<forall>i < length dc. \<not> exceeds thr fthr dc fc i"
  then have "List.find (exceeds thr fthr dc fc) [0..<length dc] = None"
    by (rule find_upt_none)
  then have "loading_start_idx thr fthr dc fc = 0"
    by (simp add: loading_start_idx_def exceeds_def [abs_def])
  then show "rezero thr fthr dc fc = dc"
    by (simp add: rezero_def)
qed

theorem rezero_first_exceeding_witness:
  "rezero (1 / 1000) (1 / 100) [0, 1, 2] [0, 1, 2] = [- 1, 0, 1]
   \<and> rezero (1 / 250) (1 / 100) [5, 1] [1, 1] = [5, 1]
   \<and> rezero 1 1 [0, 1, 2] [0, 1, 2] = [0, 1, 2]"
proof -
  have 1: "(1::nat) < length [0, 1, 2 :: real] \<and> exceeds (1 / 1000) (1 / 100) [0, 1, 2] [0, 1, 2] 1
     \<and> (\<forall>j < 1. \<not> exceeds (1 / 1000) (1 / 100) [0, 1, 2] [0, 1, 2] j)"
    by (simp add: exceeds_def)
  have 2: "(0::nat) < length [5, 1 :: real] \<and> exceeds (1 / 250) (1 / 100) [5, 1] [1, 1] 0
     \<and> (\<forall>j < 0. \<not> exceeds (1 / 250) (1 / 100) [5, 1] [1, 1] j)"
    by (simp add: exceeds_def)
  have 3: "\<forall>i < length [0, 1, 2 :: real]. \<not> exceeds 1 1 [0, 1, 2] [0, 1, 2] i"
    by (simp add: exceeds_def less_Suc_eq numeral_3_eq_3)
  show ?thesis
    using rezero_first_exceeding [of 1 "[0, 1, 2]" "1 / 1000" "1 / 100" "[0, 1, 2]"] 1
      rezero_first_exceeding [of 0 "[5, 1]" "1 / 250" "1 / 100" "[1, 1]"] 2
      rezero_first_exceeding [of 0 "[0, 1, 2]" 1 1 "[0, 1, 2]"] 3
    by simp
qed

lemmas pre_eval = preprocess_data_def disp_threshold_of_def force_threshold_of_def abs_range_def
  snap_def is_near_zero_def dedup_def unique_indices_def disp_to_max_force_idx_def dedup_step_def
  dict_set_def dict_del_def rezero_def loading_start_idx_def upt_rec

text \<open>
  C9 as stated fails: the first sample of the series \<open>5, 1\<close> is beyond twice the
  displacement threshold, and its displacement 5 is not subtracted.
\<close>

theorem rezero_counterexample:
  "preprocess_data [5, 1] [1, 1] = Inr ([5, 1], [1, 1])
   \<and> \<bar>[5, 1 :: real] ! 0\<bar> > 2 * disp_threshold_of [5, 1]
   \<and> map (\<lambda>x. x - [5, 1] ! 0) [5, 1 :: real] \<noteq> [5, 1]"
  by (simp add: pre_eval)

lemma snap_id: "\<forall>v \<in> set xs. v = 0 \<or> t \<le> \<bar>v\<bar> \<Longrightarrow> snap t xs = xs"
  by (induction xs) (auto simp: snap_def is_near_zero_def)

lemma dedup_fold_all:
  assumes tol: "0 \<le> tol" and far: "\<forall>i < length d. \<forall>j < i. \<bar>d ! i - d ! j\<bar> > tol"
  shows "n \<le> length d \<Longrightarrow>
         foldl (dedup_step tol d f) [] [0..<n] = map (\<lambda>j. (d ! j, j)) [0..<n]"
proof (induction n)
  case 0
  show ?case by simp
next
  case (Suc n)
  let ?m = "map (\<lambda>j. (d ! j, j)) [0..<n]"
  from Suc have IH: "foldl (dedup_step tol d f) [] [0..<n] = ?m" and n: "n < length d" by auto
  have nofar: "\<forall>kv \<in> set ?m. \<not> \<bar>d ! n - fst kv\<bar> \<le> tol"
    using far n by fastforce
  then have none: "find_similar tol (d ! n) ?m = None" by (simp only: find_similar_None)
  have "d ! n \<notin> fst ` set ?m"
  proof
    assume "d ! n \<in> fst ` set ?m"
    then obtain j where "j < n" "d ! j = d ! n" by auto
    with far n tol show False by fastforce
  qed
  then have "dedup_step tol d f ?m n = ?m @ [(d ! n, n)]"
    using none by (simp add: dedup_step_def dict_set_new)
  then show ?case using IH by simp
qed

lemma unique_indices_all:
  assumes "0 \<le> tol" "\<forall>i < length d. \<forall>j < i. \<bar>d ! i - d ! j\<bar> > tol"
  shows "unique_indices tol d f = [0..<length d]"
proof -
  have "map snd (map (\<lambda>j. (d ! j, j)) [0..<length d]) = [0..<length d]"
    by (simp add: comp_def)
  then show ?thesis
    unfolding unique_indices_def disp_to_max_force_idx_def
      dedup_fold_all [OF assms order_refl]
    by (simp add: sorted_sort_id)
qed

lemma disp_threshold_pos: "0 < disp_threshold_of d"
  by (simp add: disp_threshold_of_def)

text \<open>
  C7 (amended). Preprocessing returns a series unchanged when the series is already clean
  with respect to the thresholds computed from the series itself: no non-zero value lies
  within its threshold of zero, any two displacement values are more than
  \<open>0.5 * disp_threshold\<close> apart, and the re-zero step finds no start index beyond 0 or
  finds one with displacement 0.
\<close>

theorem preprocess_fixed_point:
  assumes "already_clean d f"
  shows "preprocess_data d f = Inr (d, f)"
proof -
  let ?t = "disp_threshold_of d" and ?ft = "force_threshold_of f"
  from assms have ne: "d \<noteq> []" and len: "length f = length d"
    and sd: "\<forall>v \<in> set d. v = 0 \<or> ?t \<le> \<bar>v\<bar>"
    and sf: "\<forall>v \<in> set f. v = 0 \<or> ?ft \<le> \<bar>v\<bar>"
    and far: "\<forall>i < length d. \<forall>j < i. \<bar>d ! i - d ! j\<bar> > ?t * 0.5"
    and st: "loading_start_idx ?t ?ft d f = 0 \<or> d ! loading_start_idx ?t ?ft d f = 0"
    by (simp_all add: already_clean_def Let_def)
  have fne: "f \<noteq> []" using ne len by auto
  have 1: "snap ?t d = d" by (rule snap_id [OF sd])
  have 2: "snap ?ft (take (length d) f) @ drop (length d) f = f"
    using snap_id [OF sf] len by simp
  have "0 \<le> ?t * 0.5" using disp_threshold_pos [of d] by simp
  from unique_indices_all [OF this far]
  have 3: "dedup ?t d f = (d, f)"
    using len by (simp add: dedup_def map_nth) (metis map_nth)
  have 4: "rezero ?t ?ft d f = d"
    using st by (auto simp: rezero_def Let_def)
  have sf': "snap ?ft f = f" by (rule snap_id [OF sf])
  show ?thesis
    using ne fne len by (simp add: preprocess_data_def Let_def 1 sf' 3 4)
qed

theorem preprocess_fixed_point_witness:
  "already_clean [- 1, 0, 1] [0, 1, 2] \<and> preprocess_data [- 1, 0, 1] [0, 1, 2] = Inr ([- 1, 0, 1], [0, 1, 2])"
proof -
  have c: "already_clean [- 1, 0, 1] [0, 1, 2]"
    by (simp add: already_clean_def disp_threshold_of_def force_threshold_of_def abs_range_def
        loading_start_idx_def upt_rec less_Suc_eq numeral_3_eq_3 all_conj_distrib)
  from c preprocess_fixed_point [OF c] show ?thesis by (rule conjI)
qed

text \<open>
  C7 as stated fails: the second pass shifts the output of the first pass again.
\<close>

theorem preprocess_idempotent_counterexample:
  "preprocess_data [3 / 2, 3, 1000] [0, 0, 0] = Inr ([- (3 / 2), 0, 997], [0, 0, 0])
   \<and> preprocess_data [- (3 / 2), 0, 997] [0, 0, 0] = Inr ([- (1997 / 2), - 997, 0], [0, 0, 0])
   \<and> [- (1997 / 2), - 997, 0] \<noteq> [- (3 / 2), 0, 997 :: real]"
  by (simp add: pre_eval)

text \<open>
  C2 as stated fails: the output is not ordered by ascending displacement value. The samples
  \<open>7, 1, 3\<close> are three groups of their own, and they come out in their original order.
\<close>

theorem dedup_order_counterexample:
  "preprocess_data [7, 1, 3] [4, 1, 1] = Inr ([7, 1, 3], [4, 1, 1]) \<and> \<not> sorted [7, 1, 3 :: real]"
  by (simp add: pre_eval)

text \<open>
  C2 (amended). When the relation ``within \<open>0.5 * disp_threshold\<close> of each other'' is transitive
  on the snapped displacement values, so that it partitions the samples into groups, the
  deduplication keeps from every group exactly the first sample with the largest \<open>|force|\<close>,
  and the output lists the kept samples by ascending original index, that is in time order.
\<close>

theorem dedup_first_max_time_order:
  assumes "0 < disp_threshold" and "tol_transitive (disp_threshold * 0.5) dc"
  shows "\<exists>idx. dedup disp_threshold dc fc = (map (\<lambda>i. dc ! i) idx, map (\<lambda>i. fc ! i) idx)
           \<and> sorted_wrt (<) idx
           \<and> set idx = {v. first_max_in_group (disp_threshold * 0.5) dc fc v}"
proof -
  have "0 \<le> disp_threshold * 0.5" using assms(1) by simp
  from unique_indices_groups [OF this assms(2)] unique_indices_sorted
  show ?thesis unfolding dedup_def Let_def by blast
qed

theorem dedup_first_max_time_order_witness:
  "(0::real) < 1 \<and> tol_transitive (1 * 0.5) [1, 1, 3, 1]
   \<and> (\<exists>idx. dedup 1 [1, 1, 3, 1] [1, 2, 5, 2] = (map (\<lambda>i. [1, 1, 3, 1] ! i) idx, map (\<lambda>i. [1, 2, 5, 2] ! i) idx)
           \<and> sorted_wrt (<) idx
           \<and> set idx = {v. first_max_in_group (1 * 0.5) [1, 1, 3, 1] [1, 2, 5, 2] v})
   \<and> dedup 1 [1, 1, 3, 1] [1, 2, 5, 2] = ([1, 3], [2, 5])"
proof -
  have 1: "(0::real) < 1" by simp
  have 2: "tol_transitive (1 * 0.5) [1, 1, 3, 1]" by (simp add: tol_transitive_def)
  have 3: "dedup 1 [1, 1, 3, 1] [1, 2, 5, 2] = ([1, 3], [2, 5])"
    by (simp add: pre_eval)
  from 1 2 dedup_first_max_time_order [OF 1 2, of "[1, 2, 5, 2]"] 3 show ?thesis by blast
qed

section \<open>Theorems: smoothing\<close>

lemma py_int_of_int: "py_int (of_int k) = k"
  by (simp add: py_int_def)

lemma sg_window_props:
  assumes "even n" "4 \<le> n"
  shows "odd (sg_window_length s n)" "3 \<le> sg_window_length s n" "sg_window_length s n < int n"
proof -
  define w1 where "w1 = (if py_int s mod 2 = 0 then py_int s + 1 else py_int s)"
  have o1: "odd w1" unfolding w1_def by presburger
  have on: "odd (int n - 1)" using assms by simp
  have o2: "odd (min w1 (int n - 1))" using o1 on by (simp add: min_def)
  have w: "sg_window_length s n = (if min w1 (int n - 1) < 3 then 3 else min w1 (int n - 1))"
    by (simp add: sg_window_length_def w1_def Let_def)
  show "odd (sg_window_length s n)" unfolding w using o2 by simp
  show "3 \<le> sg_window_length s n" unfolding w by (simp add: not_less)
  show "sg_window_length s n < int n" unfolding w using assms(2) by auto
qed

lemma interp_points_items_even: "n \<in> set interp_points_items \<Longrightarrow> even n \<and> 4 \<le> n"
  by (auto simp: interp_points_items_def)

lemma length_linspace: "length (linspace a b n) = n"
  by (simp add: linspace_def)

lemma sg_window_six: "n \<in> set interp_points_items \<Longrightarrow> sg_window_length 6 n = 7"
  by (auto simp: interp_points_items_def sg_window_length_def py_int_def)

lemma sg_window_cases:
  assumes "even n" "4 \<le> n"
  shows "even (py_int s) \<and> 2 \<le> py_int s \<and> py_int s + 1 < int n \<longrightarrow> sg_window_length s n = py_int s + 1"
    and "odd (py_int s) \<and> 3 \<le> py_int s \<and> py_int s < int n \<longrightarrow> sg_window_length s n = py_int s"
    and "py_int s < 2 \<longrightarrow> sg_window_length s n = 3"
    and "int n \<le> py_int s \<longrightarrow> sg_window_length s n = int n - 1"
  using assms by (auto simp: sg_window_length_def Let_def min_def)

text \<open>
  C10. With the Savitzky-Golay algorithm selected and the number of points \<open>n\<close> taken from
  the combo box, the filter is called with the window \<open>w\<close> and the polynomial order
  \<open>min 3 (w - 1)\<close>, where \<open>w\<close> is odd, at least 3 and less than \<open>n\<close>. With \<open>k\<close> the integer
  part of the parameter: an even \<open>k\<close> from 2 on is corrected to the next odd window \<open>k + 1\<close>,
  an odd \<open>k\<close> from 3 on is the window itself, a \<open>k\<close> below 2 gives the window 3, and a \<open>k\<close>
  of \<open>n\<close> or more is clipped to \<open>n - 1\<close>; in particular the parameter value 6 gives 7.
\<close>

theorem savgol_window:
  assumes "smooth_algorithm ui = SavitzkyGolay" and "interp_points ui \<in> set interp_points_items"
    and "n = interp_points ui" and "k = py_int (smoothness_spinbox ui)"
    and "w = sg_window_length (smoothness_spinbox ui) (interp_points ui)"
  shows "evaluate lib ui xs ys (linspace a b n) =
           (case make_interp_spline lib xs ys (linspace a b n) of
              None \<Rightarrow> None
            | Some y_temp \<Rightarrow> savgol_filter lib y_temp w (min 3 (w - 1)))
         \<and> odd w \<and> 3 \<le> w \<and> w < int n
         \<and> (even k \<and> 2 \<le> k \<and> k + 1 < int n \<longrightarrow> w = k + 1)
         \<and> (odd k \<and> 3 \<le> k \<and> k < int n \<longrightarrow> w = k)
         \<and> (k < 2 \<longrightarrow> w = 3)
         \<and> (int n \<le> k \<longrightarrow> w = int n - 1)
         \<and> (smoothness_spinbox ui = 6 \<longrightarrow> w = 7)"
proof -
  from interp_points_items_even [OF assms(2)]
  have e: "even n" "4 \<le> n" unfolding assms(3) by auto
  have ev: "evaluate lib ui xs ys (linspace a b n) =
           (case make_interp_spline lib xs ys (linspace a b n) of
              None \<Rightarrow> None
            | Some y_temp \<Rightarrow> savgol_filter lib y_temp w (min 3 (w - 1)))"
    using assms(1) unfolding assms(3,5)
    by (simp add: evaluate_def sg_polyorder_def length_linspace Let_def split: option.split)
  have six: "smoothness_spinbox ui = 6 \<longrightarrow> w = 7"
    using sg_window_six [OF assms(2)] unfolding assms(5) by simp
  have w: "w = sg_window_length (smoothness_spinbox ui) n" unfolding assms(3,5) ..
  show ?thesis
    unfolding assms(4)
    using ev six sg_window_props [OF e, of "smoothness_spinbox ui"]
      sg_window_cases [OF e, of "smoothness_spinbox ui"]
    unfolding w [symmetric]
    by (intro conjI) assumption+
qed

lemma sg_window_even_k:
  assumes "n \<in> set interp_points_items" "even k" "2 \<le> k" "k + 1 < int n"
  shows "sg_window_length (of_int k) n = k + 1"
  using sg_window_cases(1) [OF interp_points_items_even [OF assms(1), THEN conjunct1]
      interp_points_items_even [OF assms(1), THEN conjunct2], of "of_int k"] assms(2-4)
  by (simp add: py_int_of_int)

theorem savgol_window_witness:
  "evaluate window_probe_lib
       \<lparr>smooth_algorithm = SavitzkyGolay, interp_points = 300, smoothness_spinbox = 6\<rparr>
       [1, 2, 3, 4] [1, 2, 3, 4] (linspace 1 4 300) = Some [7, 3]
   \<and> sg_window_length 6 300 = 7
   \<and> evaluate window_probe_lib
       \<lparr>smooth_algorithm = SavitzkyGolay, interp_points = 100, smoothness_spinbox = 8\<rparr>
       [1, 2, 3, 4] [1, 2, 3, 4] (linspace 1 4 100) = Some [9, 3]
   \<and> sg_window_length 8 100 = 9
   \<and> sg_window_length 51 100 = 51
   \<and> sg_window_length 1 100 = 3"
proof -
  let ?u6 = "\<lparr>smooth_algorithm = SavitzkyGolay, interp_points = 300, smoothness_spinbox = 6\<rparr>"
  let ?u8 = "\<lparr>smooth_algorithm = SavitzkyGolay, interp_points = 100, smoothness_spinbox = 8\<rparr>"
  let ?u51 = "\<lparr>smooth_algorithm = SavitzkyGolay, interp_points = 100, smoothness_spinbox = 51\<rparr>"
  let ?u1 = "\<lparr>smooth_algorithm = SavitzkyGolay, interp_points = 100, smoothness_spinbox = 1\<rparr>"
  have p: "py_int 6 = 6" "py_int 8 = 8" "py_int 51 = 51" "py_int 1 = 1"
    by (simp_all add: py_int_def)
  have m: "make_interp_spline window_probe_lib [1, 2, 3, 4] [1, 2, 3, 4] g = Some g"
      "savgol_filter window_probe_lib y w q = Some [of_int w, of_int q]" for g y w q
    by (simp_all add: window_probe_lib_def stand_in_lib_def)
  note t6 = savgol_window [where ui = ?u6 and lib = window_probe_lib and xs = "[1, 2, 3, 4]"
      and ys = "[1, 2, 3, 4]" and a = 1 and b = 4, OF _ _ refl refl refl]
  note t8 = savgol_window [where ui = ?u8 and lib = window_probe_lib and xs = "[1, 2, 3, 4]"
      and ys = "[1, 2, 3, 4]" and a = 1 and b = 4, OF _ _ refl refl refl]
  note t51 = savgol_window [where ui = ?u51 and lib = window_probe_lib and xs = "[1, 2, 3, 4]"
      and ys = "[1, 2, 3, 4]" and a = 1 and b = 4, OF _ _ refl refl refl]
  note t1 = savgol_window [where ui = ?u1 and lib = window_probe_lib and xs = "[1, 2, 3, 4]"
      and ys = "[1, 2, 3, 4]" and a = 1 and b = 4, OF _ _ refl refl refl]
  have w6: "sg_window_length 6 300 = 7"
    using t6 by (simp add: interp_points_items_def p)
  have w8: "sg_window_length 8 100 = 9"
    using t8 by (simp add: interp_points_items_def p)
  have w51: "sg_window_length 51 100 = 51"
    using t51 by (simp add: interp_points_items_def p)
  have w1: "sg_window_length 1 100 = 3"
    using t1 by (simp add: interp_points_items_def p)
  have e6: "evaluate window_probe_lib ?u6 [1, 2, 3, 4] [1, 2, 3, 4] (linspace 1 4 300) = Some [7, 3]"
    using t6 by (simp add: interp_points_items_def m w6)
  have e8: "evaluate window_probe_lib ?u8 [1, 2, 3, 4] [1, 2, 3, 4] (linspace 1 4 100) = Some [9, 3]"
    using t8 by (simp add: interp_points_items_def m w8)
  show ?thesis using e6 w6 e8 w8 w51 w1 by (intro conjI)
qed

lemma seen_fold_inv:
  "n \<le> length x \<Longrightarrow>
   (case foldl (seen_step x) ([], []) [0..<n] of (uniq, seen) \<Rightarrow>
      set seen = set (take n x) \<and> set (map (\<lambda>i. x ! i) uniq) = set (take n x) \<and>
      distinct (map (\<lambda>i. x ! i) uniq) \<and> (\<forall>i \<in> set uniq. i < n))"
proof (induction n)
  case 0
  show ?case by simp
next
  case (Suc n)
  obtain uniq seen where st: "foldl (seen_step x) ([], []) [0..<n] = (uniq, seen)"
    by (cases "foldl (seen_step x) ([], []) [0..<n]")
  from Suc st have IH: "set seen = set (take n x)" "set (map (\<lambda>i. x ! i) uniq) = set (take n x)"
    "distinct (map (\<lambda>i. x ! i) uniq)" "\<forall>i \<in> set uniq. i < n" and n: "n < length x"
    by auto
  have t: "set (take (Suc n) x) = insert (x ! n) (set (take n x))"
    using n by (simp add: take_Suc_conv_app_nth)
  have step: "foldl (seen_step x) ([], []) [0..<Suc n] = seen_step x (uniq, seen) n"
    by (simp add: st)
  show ?case
  proof (cases "x ! n \<in> set seen")
    case True
    then have "seen_step x (uniq, seen) n = (uniq, seen)" by (simp add: seen_step_def)
    then show ?thesis unfolding step using IH t True by (auto simp: less_Suc_eq)
  next
    case False
    then have "seen_step x (uniq, seen) n = (uniq @ [n], x ! n # seen)"
      by (simp add: seen_step_def)
    then show ?thesis unfolding step using IH t False by (auto simp: less_Suc_eq)
  qed
qed

lemma x_unique_indices_props:
  "set (map (\<lambda>i. x ! i) (x_unique_indices x)) = set x"
  "distinct (map (\<lambda>i. x ! i) (x_unique_indices x))"
  "\<forall>i \<in> set (x_unique_indices x). i < length x"
  using seen_fold_inv [of "length x" x]
  by (auto simp: x_unique_indices_def split: prod.splits)

lemma argsort_sorted:
  "map (\<lambda>i. xs ! i) (argsort xs) = map fst (sort_key fst (zip xs [0..<length xs]))"
proof -
  have "\<forall>p \<in> set (sort_key fst (zip xs [0..<length xs])). xs ! snd p = fst p"
    by (auto simp: set_zip)
  then show ?thesis by (simp add: argsort_def comp_def cong: map_cong)
qed

lemma length_argsort: "length (argsort xs) = length xs"
  by (simp add: argsort_def)

lemma usable_x:
  assumes "usable_points x y = (xs, ys)"
  shows "sorted xs" "set xs = set x" "length xs = length (x_unique_indices x)" "distinct xs"
proof -
  let ?u = "map (\<lambda>i. x ! i) (x_unique_indices x)"
  from assms have xs: "xs = map fst (sort_key fst (zip ?u [0..<length ?u]))"
    by (simp add: usable_points_def Let_def argsort_sorted)
  show "sorted xs" unfolding xs by (rule sorted_sort_key)
  have "set xs = fst ` set (zip ?u [0..<length ?u])" unfolding xs by simp
  also have "\<dots> = set ?u"
    by (metis length_upt diff_zero map_fst_zip set_map)
  finally show "set xs = set x" using x_unique_indices_props(1) by simp
  show l: "length xs = length (x_unique_indices x)" unfolding xs by simp
  have "card (set xs) = length xs"
    using \<open>set xs = set x\<close> x_unique_indices_props(1,2) [of x] l
    by (metis distinct_card length_map)
  then show "distinct xs" by (rule card_distinct)
qed

lemma sorted_first_Min: "sorted xs \<Longrightarrow> xs \<noteq> [] \<Longrightarrow> xs ! 0 = Min (set xs)"
  by (cases xs) (auto intro!: Min_eqI [symmetric])

lemma sorted_last_Max: "sorted xs \<Longrightarrow> xs \<noteq> [] \<Longrightarrow> last xs = Max (set xs)"
proof -
  assume s: "sorted xs" and ne: "xs \<noteq> []"
  then have "\<forall>y \<in> set xs. y \<le> last xs"
    by (metis last_conv_nth in_set_conv_nth sorted_nth_mono diff_less length_greater_0_conv
        less_Suc_eq_le Suc_pred' zero_less_one)
  then show ?thesis using ne by (auto intro!: Max_eqI [symmetric])
qed

lemma length_x_unique_indices: "length (x_unique_indices x) \<le> length x"
proof -
  have "distinct (x_unique_indices x)"
    using x_unique_indices_props(2) [of x] by (simp add: distinct_map)
  then have "length (x_unique_indices x) = card (set (x_unique_indices x))"
    by (simp add: distinct_card)
  also have "\<dots> \<le> card {..<length x}"
    using x_unique_indices_props(3) [of x] by (intro card_mono) auto
  finally show ?thesis by simp
qed

lemma nth_linspace:
  "i < n \<Longrightarrow> linspace a b n ! i = a + real i * ((b - a) / real (n - 1))"
  by (simp add: linspace_def)

text \<open>
  C6. The usable points are the first occurrences of the x values, sorted ascending. With
  fewer than 4 of them the smoothing returns \<open>(x, y)\<close> unchanged. Otherwise, when \<open>y\<close> has a
  value for every x and the selected algorithm returns its values, the result has exactly
  \<open>n\<close> x-values, \<open>n\<close> being the number of points of the combo box, linearly spaced from the
  smallest to the largest usable x.
\<close>

theorem interpolate_smooth_points:
  assumes "usable_points x y = (xs, ys)" and "interp_points ui = n"
  shows "sorted xs \<and> distinct xs \<and> set xs = set x
    \<and> (length xs < 4 \<longrightarrow> interpolate_smooth lib ui x y k = (x, y))
    \<and> (4 \<le> length xs \<and> length x \<le> length y
         \<and> evaluate lib ui xs ys (linspace (Min (set xs)) (Max (set xs)) n) = Some y_smooth
       \<longrightarrow> interpolate_smooth lib ui x y k = (linspace (Min (set xs)) (Max (set xs)) n, y_smooth)
           \<and> length (fst (interpolate_smooth lib ui x y k)) = n
           \<and> (\<forall>i < n. fst (interpolate_smooth lib ui x y k) ! i
                 = Min (set xs) + real i * ((Max (set xs) - Min (set xs)) / real (n - 1))))"
proof -
  note u = usable_x [OF assms(1)]
  have short: "interpolate_smooth lib ui x y k = (x, y)" if "length xs < 4"
    using that u(3) by (simp add: interpolate_smooth_def)
  have long: "interpolate_smooth lib ui x y k = (linspace (Min (set xs)) (Max (set xs)) n, y_smooth)"
    if l: "4 \<le> length xs" and ly: "length x \<le> length y"
      and ev: "evaluate lib ui xs ys (linspace (Min (set xs)) (Max (set xs)) n) = Some y_smooth"
  proof -
    have ne: "xs \<noteq> []" using l by auto
    have lx: "\<not> length x < 4" using l u(3) length_x_unique_indices [of x] by simp
    have iy: "\<forall>i \<in> set (x_unique_indices x). i < length y"
      using x_unique_indices_props(3) [of x] ly by auto
    have "interpolate_smooth lib ui x y k =
            (case evaluate lib ui xs ys (linspace (xs ! 0) (last xs) n) of
               None \<Rightarrow> (x, y)
             | Some y_smooth \<Rightarrow> (linspace (xs ! 0) (last xs) n, y_smooth))"
      using lx l u(3) iy assms by (simp add: interpolate_smooth_def Let_def split: option.split)
    then show ?thesis
      using ev by (simp add: sorted_first_Min [OF u(1) ne] sorted_last_Max [OF u(1) ne])
  qed
  show ?thesis
    using u(1,2,4) short long by (auto simp: length_linspace nth_linspace)
qed

lemma usable_ex: "usable_points [3, 1, 2, 1, 4] [30, 10, 20, 11, 40] = ([1, 2, 3, 4], [10, 20, 30, 40])"
  by (simp add: usable_points_def x_unique_indices_def seen_step_def argsort_def upt_rec)

theorem interpolate_smooth_points_witness:
  "usable_points [3, 1, 2, 1, 4] [30, 10, 20, 11, 40] = ([1, 2, 3, 4], [10, 20, 30, 40])
   \<and> interpolate_smooth stand_in_lib
        \<lparr>smooth_algorithm = PCHIP, interp_points = 100, smoothness_spinbox = 1\<rparr>
        [3, 1, 2, 1, 4] [30, 10, 20, 11, 40] 300 = (linspace 1 4 100, linspace 1 4 100)
   \<and> length (fst (interpolate_smooth stand_in_lib
        \<lparr>smooth_algorithm = PCHIP, interp_points = 100, smoothness_spinbox = 1\<rparr>
        [3, 1, 2, 1, 4] [30, 10, 20, 11, 40] 300)) = 100
   \<and> usable_points [1, 2, 1, 2] [1, 2, 3, 4] = ([1, 2], [1, 2])
   \<and> interpolate_smooth stand_in_lib
        \<lparr>smooth_algorithm = PCHIP, interp_points = 100, smoothness_spinbox = 1\<rparr>
        [1, 2, 1, 2] [1, 2, 3, 4] 300 = ([1, 2, 1, 2], [1, 2, 3, 4])"
proof -
  let ?ui = "\<lparr>smooth_algorithm = PCHIP, interp_points = 100, smoothness_spinbox = 1\<rparr>"
  have u: "usable_points [3, 1, 2, 1, 4] [30, 10, 20, 11, 40] = ([1, 2, 3, 4], [10, 20, 30, 40])"
    by (simp add: usable_points_def x_unique_indices_def seen_step_def argsort_def upt_rec)
  have n: "interp_points ?ui = 100" by simp
  have mm: "Min (set [1, 2, 3, 4 :: real]) = 1" "Max (set [1, 2, 3, 4 :: real]) = 4" by simp_all
  have e: "evaluate stand_in_lib ?ui [1, 2, 3, 4] [10, 20, 30, 40]
             (linspace (Min (set [1, 2, 3, 4])) (Max (set [1, 2, 3, 4])) 100)
           = Some (linspace 1 4 100)"
    by (simp add: evaluate_def stand_in_lib_def)
  have u2: "usable_points [1, 2, 1, 2] [1, 2, 3, 4] = ([1, 2], [1, 2])"
    by (simp add: usable_points_def x_unique_indices_def seen_step_def argsort_def upt_rec Let_def)
  have r1: "interpolate_smooth stand_in_lib ?ui [3, 1, 2, 1, 4] [30, 10, 20, 11, 40] 300
             = (linspace 1 4 100, linspace 1 4 100)"
    using interpolate_smooth_points [OF u n, where lib = stand_in_lib
        and y_smooth = "linspace 1 4 100" and k = 300] e
    by (simp add: mm)
  have r2: "length (fst (interpolate_smooth stand_in_lib ?ui [3, 1, 2, 1, 4] [30, 10, 20, 11, 40] 300))
             = 100"
    by (simp add: r1 length_linspace)
  have r3: "interpolate_smooth stand_in_lib ?ui [1, 2, 1, 2] [1, 2, 3, 4] 300
             = ([1, 2, 1, 2], [1, 2, 3, 4])"
    using interpolate_smooth_points [OF u2 n, where lib = stand_in_lib and y_smooth = "[]" and k = 300]
    by simp
  show ?thesis using u r1 r2 u2 r3 by (intro conjI)
qed

section \<open>Theorems: ductility\<close>

lemma np_argmax_props:
  assumes "xs \<noteq> []"
  shows "np_argmax xs < length xs" "xs ! np_argmax xs = Max (set xs)"
proof -
  let ?l = "filter (\<lambda>i. xs ! i = Max (set xs)) [0..<length xs]"
  have "Max (set xs) \<in> set xs" using assms by (intro Max_in) auto
  then obtain i where "i < length xs" "xs ! i = Max (set xs)" by (auto simp: in_set_conv_nth)
  then have "i \<in> set ?l" by simp
  then have "?l \<noteq> []" by (auto simp: filter_empty_conv)
  then have "hd ?l \<in> set ?l" by (rule hd_in_set)
  then show "np_argmax xs < length xs" "xs ! np_argmax xs = Max (set xs)"
    by (simp_all add: np_argmax_def)
qed

lemma np_argmin_props:
  assumes "xs \<noteq> []"
  shows "np_argmin xs < length xs" "xs ! np_argmin xs = Min (set xs)"
proof -
  let ?l = "filter (\<lambda>i. xs ! i = Min (set xs)) [0..<length xs]"
  have "Min (set xs) \<in> set xs" using assms by (intro Min_in) auto
  then obtain i where "i < length xs" "xs ! i = Min (set xs)" by (auto simp: in_set_conv_nth)
  then have "i \<in> set ?l" by simp
  then have "?l \<noteq> []" by (auto simp: filter_empty_conv)
  then have "hd ?l \<in> set ?l" by (rule hd_in_set)
  then show "np_argmin xs < length xs" "xs ! np_argmin xs = Min (set xs)"
    by (simp_all add: np_argmin_def)
qed

lemma abs_at_argmax: "xs \<noteq> [] \<Longrightarrow> \<bar>xs ! np_argmax (map abs xs)\<bar> = peak_force_of xs"
  using np_argmax_props [of "map abs xs"] by (simp add: peak_force_of_def)

lemma area_loop_sum:
  "\<forall>i \<in> set is. Suc i < length f \<Longrightarrow>
   area_loop d f is a = Inr (a + (\<Sum>i \<leftarrow> is. 0.5 * (f ! i + f ! (i + 1)) * (d ! (i + 1) - d ! i)))"
  by (induction "is" arbitrary: a) (simp_all add: add.assoc)

lemma calculate_loop_area_eq:
  assumes "length d \<le> length f"
  shows "calculate_loop_area d f = Inr \<bar>trapezoid_sum d f\<bar>"
proof -
  have "\<forall>i \<in> set [0..<length d - 1]. Suc i < length f" using assms by auto
  from area_loop_sum [OF this, of d 0]
  show ?thesis
    by (simp add: calculate_loop_area_def trapezoid_sum_def interv_sum_list_conv_sum_set_nat
        atLeast0LessThan)
qed

lemma k0_loop_eq:
  "\<forall>i \<in> set is. i < length force \<Longrightarrow>
   k0_loop disp force is K0 =
     Inr (fold (\<lambda>i K0. if \<bar>disp ! i\<bar> > 1 / 10 ^ 6 then max K0 \<bar>force ! i / disp ! i\<bar> else K0) is K0)"
  by (induction "is" arbitrary: K0) (auto simp: Let_def max_def)

lemma k0_fold_nonneg:
  fixes disp force :: "real list"
  shows "0 \<le> K0 \<Longrightarrow>
   0 \<le> fold (\<lambda>i K0. if \<bar>disp ! i\<bar> > 1 / 10 ^ 6 then max K0 \<bar>force ! i / disp ! i\<bar> else K0) is K0"
  by (induction "is" arbitrary: K0) (auto simp: max_def)

lemma initial_stiffness_nonneg: "0 \<le> initial_stiffness disp force"
  unfolding initial_stiffness_def by (rule k0_fold_nonneg) simp

lemma park_yield_loop_eq:
  "\<forall>i \<in> set is. i < length force \<Longrightarrow>
   park_yield_loop disp force Ky is =
     Inr (case List.find (\<lambda>i. \<bar>disp ! i\<bar> > 1 / 10 ^ 6 \<and> \<bar>force ! i / disp ! i\<bar> \<le> Ky) is of
            None \<Rightarrow> 1
          | Some i \<Rightarrow> \<bar>last disp\<bar> / \<bar>disp ! i\<bar>)"
proof (induction "is")
  case Nil
  show ?case by simp
next
  case (Cons i "is")
  then show ?case by (auto simp: Let_def)
qed

lemma geometric_eq:
  assumes "disp \<noteq> []" "length disp = length force"
  shows "calc_geometric_ductility disp force = Inr (ratio_or_one Geometric disp force)"
proof -
  have f: "force \<noteq> []" using assms by auto
  have "map abs force \<noteq> []" using f by simp
  from np_argmax_props [OF this] assms(2)
  have i: "np_argmax (map abs force) < length disp"
    and m: "map abs force ! np_argmax (map abs force) = peak_force_of force"
    by (simp_all add: peak_force_of_def)
  show ?thesis
    using f i m
    by (simp add: calc_geometric_ductility_def ratio_or_one_def yield_displacement_def
        ultimate_displacement_def Let_def)
qed

lemma energy_eq:
  assumes "disp \<noteq> []" "length disp = length force"
  shows "calc_energy_ductility disp force = Inr (ratio_or_one Energy disp force)"
proof -
  have f: "force \<noteq> []" using assms by auto
  have a: "calculate_loop_area disp force = Inr \<bar>trapezoid_sum disp force\<bar>"
    using assms(2) by (intro calculate_loop_area_eq) simp
  show ?thesis
    using f assms(1) a abs_at_argmax [OF f]
    by (simp add: calc_energy_ductility_def ratio_or_one_def yield_displacement_def
        ultimate_displacement_def magnitude_argmax_disp_def Let_def)
qed

lemma eeep_eq:
  assumes "disp \<noteq> []" "length disp = length force"
  shows "calc_eeep_ductility disp force = Inr (ratio_or_one EEEP disp force)"
proof -
  have f: "force \<noteq> []" using assms by auto
  have a: "calculate_loop_area disp force = Inr \<bar>trapezoid_sum disp force\<bar>"
    using assms(2) by (intro calculate_loop_area_eq) simp
  show ?thesis
    using f assms(1) a abs_at_argmax [OF f]
    by (simp add: calc_eeep_ductility_def ratio_or_one_def yield_displacement_def
        ultimate_displacement_def magnitude_argmax_disp_def Let_def)
qed

lemma asce_eq:
  assumes "disp \<noteq> []" "length disp = length force"
  shows "calc_asce_ductility disp force = Inr (ratio_or_one ASCE disp force)"
proof -
  have f: "force \<noteq> []" using assms by auto
  let ?q = "map (\<lambda>a. \<bar>a - 0.6 * peak_force_of force\<bar>) (map abs force)"
  have "?q \<noteq> []" using f by simp
  from np_argmin_props(1) [OF this] assms(2)
  have i: "np_argmin ?q < length disp" by simp
  show ?thesis
    using f i
    by (simp add: calc_asce_ductility_def ratio_or_one_def yield_displacement_def
        ultimate_displacement_def magnitude_argmax_disp_def Let_def peak_force_of_def)
qed

lemma k0_eq:
  assumes "length disp = length force"
  shows "k0_loop disp force [1..<min 5 (length disp)] 0 = Inr (initial_stiffness disp force)"
proof -
  have "\<forall>i \<in> set [1..<min 5 (length disp)]. i < length force" using assms by auto
  from k0_loop_eq [OF this] show ?thesis by (simp add: initial_stiffness_def)
qed

lemma elastic_eq:
  assumes "disp \<noteq> []" "length disp = length force"
  shows "calc_elastic_yield_ductility disp force = Inr (ratio_or_one ElasticYield disp force)"
proof -
  have f: "force \<noteq> []" using assms by auto
  have pos: "initial_stiffness disp force \<noteq> 0 \<Longrightarrow> initial_stiffness disp force > 0"
    using initial_stiffness_nonneg [of disp force] by simp
  show ?thesis
    using f assms(1) k0_eq [OF assms(2)] abs_at_argmax [OF f] pos
    by (simp add: calc_elastic_yield_ductility_def ratio_or_one_def yield_displacement_def
        ultimate_displacement_def magnitude_argmax_disp_def Let_def)
qed

lemma park_eq:
  assumes "disp \<noteq> []" "length disp = length force"
  shows "calc_park_ductility disp force = Inr (ratio_or_one Park disp force)"
proof (cases "length disp < 3 \<or> initial_stiffness disp force = 0")
  case True
  then show ?thesis
    using k0_eq [OF assms(2)]
    by (auto simp: calc_park_ductility_def ratio_or_one_def yield_displacement_def)
next
  case False
  let ?P = "\<lambda>i. \<bar>disp ! i\<bar> > 1 / 10 ^ 6 \<and> \<bar>force ! i / disp ! i\<bar> \<le> initial_stiffness disp force / 3"
  have "\<forall>i \<in> set [2..<length disp]. i < length force" using assms(2) by auto
  from park_yield_loop_eq [OF this, of disp "initial_stiffness disp force / 3"]
  have l: "park_yield_loop disp force (initial_stiffness disp force / 3) [2..<length disp] =
        Inr (case List.find ?P [2..<length disp] of None \<Rightarrow> 1 | Some i \<Rightarrow> \<bar>last disp\<bar> / \<bar>disp ! i\<bar>)" .
  have y: "\<And>i. List.find ?P [2..<length disp] = Some i \<Longrightarrow> \<bar>disp ! i\<bar> > 0"
  proof -
    fix i assume "List.find ?P [2..<length disp] = Some i"
    then have "?P i" by (auto simp: find_Some_iff)
    then have "(0::real) < 1 / 10 ^ 6 \<and> 1 / 10 ^ 6 < \<bar>disp ! i\<bar>" by simp
    then show "\<bar>disp ! i\<bar> > 0" by linarith
  qed
  show ?thesis
    using False k0_eq [OF assms(2)] l y
    by (auto simp: calc_park_ductility_def ratio_or_one_def yield_displacement_def
        ultimate_displacement_def Let_def split: option.splits)
qed

lemma farthest_eq:
  assumes "disp \<noteq> []" "length disp = length force"
  shows "calc_farthest_ductility disp force = Inr (ratio_or_one Farthest disp force)"
proof -
  have "map abs disp \<noteq> []" using assms by simp
  from np_argmax_props(1) [OF this] assms(2)
  have i: "np_argmax (map abs disp) < length force" by simp
  show ?thesis
    using assms(1) i
    by (simp add: calc_farthest_ductility_def ratio_or_one_def yield_displacement_def
        ultimate_displacement_def magnitude_argmax_disp_def farthest_index_def Let_def
        split: prod.splits)
qed

lemma ductility_eq:
  assumes "disp \<noteq> []" "length disp = length force"
  shows "ductility m disp force = Inr (ratio_or_one m disp force)"
  using assms
  by (cases m)
     (simp_all add: ductility_def geometric_eq energy_eq park_eq farthest_eq asce_eq eeep_eq elastic_eq)

lemma sorted_abs_argmax_last:
  assumes "disp \<noteq> []" "sorted_wrt (<) (map abs disp)"
  shows "magnitude_argmax_disp disp = \<bar>last disp\<bar>"
proof -
  let ?xs = "map abs disp"
  have ne: "?xs \<noteq> []" using assms(1) by simp
  have s: "sorted ?xs" and d: "distinct ?xs"
    using assms(2) strict_sorted_iff [of ?xs] by auto
  have "\<forall>y \<in> set ?xs. y \<le> last ?xs"
    using s ne
    by (metis last_conv_nth in_set_conv_nth sorted_nth_mono diff_less length_greater_0_conv
        less_Suc_eq_le Suc_pred' zero_less_one)
  moreover have "last ?xs \<in> set ?xs" using ne by (rule last_in_set)
  ultimately have "Max (set ?xs) = last ?xs" by (intro Max_eqI) auto
  with np_argmax_props [OF ne] have "?xs ! np_argmax ?xs = last ?xs" by simp
  then have "\<bar>disp ! np_argmax ?xs\<bar> = \<bar>last disp\<bar>"
    using np_argmax_props(1) [OF ne] assms(1) by (simp add: last_map)
  then show ?thesis by (simp add: magnitude_argmax_disp_def)
qed

text \<open>
  C4. On a branch with a force value for each displacement value, each of the seven methods
  returns a number (it does not raise), and the number is exactly 1 whenever the yield
  displacement it computes is not positive, whenever it computes none, and in particular
  whenever the peak force (energy, EEEP) or the initial stiffness \<open>K0\<close> (Park, elastic
  yield) is zero.
\<close>

theorem ductility_degenerate_is_one:
  assumes "disp \<noteq> []" "length disp = length force"
  shows "(\<exists>r. ductility m disp force = Inr r)
     \<and> (\<forall>y. yield_displacement m disp force = Some y \<and> y \<le> 0 \<longrightarrow> ductility m disp force = Inr 1)
     \<and> (yield_displacement m disp force = None \<longrightarrow> ductility m disp force = Inr 1)
     \<and> ((m = Energy \<or> m = EEEP) \<and> peak_force_of force = 0 \<longrightarrow> ductility m disp force = Inr 1)
     \<and> ((m = Park \<or> m = ElasticYield) \<and> initial_stiffness disp force = 0
          \<longrightarrow> ductility m disp force = Inr 1)"
proof -
  note e = ductility_eq [OF assms, of m]
  have 1: "\<exists>r. ductility m disp force = Inr r" using e by blast
  have 2: "ductility m disp force = Inr 1" if "yield_displacement m disp force = Some y" "y \<le> 0" for y
    using e that by (simp add: ratio_or_one_def)
  have 3: "ductility m disp force = Inr 1" if "yield_displacement m disp force = None"
    using e that by (simp add: ratio_or_one_def)
  have 4: "yield_displacement m disp force = None" if "(m = Energy \<or> m = EEEP) \<and> peak_force_of force = 0"
    using that by (auto simp: yield_displacement_def)
  have 5: "yield_displacement m disp force = None"
    if "(m = Park \<or> m = ElasticYield) \<and> initial_stiffness disp force = 0"
    using that by (auto simp: yield_displacement_def)
  show ?thesis
  proof (intro conjI allI impI)
    show "\<exists>r. ductility m disp force = Inr r" by (rule 1)
  next
    fix y assume "yield_displacement m disp force = Some y \<and> y \<le> 0"
    then show "ductility m disp force = Inr 1" using 2 by blast
  next
    assume "yield_displacement m disp force = None"
    then show "ductility m disp force = Inr 1" by (rule 3)
  next
    assume "(m = Energy \<or> m = EEEP) \<and> peak_force_of force = 0"
    then show "ductility m disp force = Inr 1" by (intro 3 4)
  next
    assume "(m = Park \<or> m = ElasticYield) \<and> initial_stiffness disp force = 0"
    then show "ductility m disp force = Inr 1" by (intro 3 5)
  qed
qed

theorem ductility_degenerate_is_one_witness:
  "yield_displacement Geometric [0, 1, 2] [0, 0, 0] = Some 0
   \<and> ductility Geometric [0, 1, 2] [0, 0, 0] = Inr 1
   \<and> peak_force_of [0, 0, 0] = 0
   \<and> ductility Energy [0, 1, 2] [0, 0, 0] = Inr 1"
proof -
  have ne: "[0, 1, 2 :: real] \<noteq> []" and len: "length [0, 1, 2 :: real] = length [0, 0, 0 :: real]"
    by simp_all
  have y: "yield_displacement Geometric [0, 1, 2] [0, 0, 0] = Some 0"
    by (simp only: yield_displacement_def ductility_method.case) code_simp
  have p: "peak_force_of [0, 0, 0] = 0" by (simp add: peak_force_of_def)
  from ductility_degenerate_is_one [OF ne len, of Geometric] y
  have 1: "ductility Geometric [0, 1, 2] [0, 0, 0] = Inr 1" by simp
  from ductility_degenerate_is_one [OF ne len, of Energy] p
  have 2: "ductility Energy [0, 1, 2] [0, 0, 0] = Inr 1" by simp
  from y 1 p 2 show ?thesis by (intro conjI)
qed

text \<open>
  C5 (amended). Each method returns the ultimate displacement divided by the yield
  displacement when it finds a positive yield displacement, and 1 otherwise. The ultimate
  displacement is the magnitude at the sample of the largest \<open>|disp|\<close> for the energy,
  farthest-point, ASCE, EEEP and elastic-yield methods; for the Park method it is the
  magnitude of the last sample, which is that same sample on a branch of strictly increasing
  magnitude; for the geometric method it is the magnitude at the sample of the largest
  \<open>|force|\<close>.
\<close>

theorem ductility_ultimate_over_yield:
  assumes "disp \<noteq> []" "length disp = length force"
  shows "ductility m disp force =
           Inr (case yield_displacement m disp force of
                  None \<Rightarrow> 1
                | Some y \<Rightarrow> if y > 0 then ultimate_displacement m disp force / y else 1)
     \<and> (m \<noteq> Geometric \<and> m \<noteq> Park \<longrightarrow> ultimate_displacement m disp force = magnitude_argmax_disp disp)
     \<and> (sorted_wrt (<) (map abs disp) \<longrightarrow> ultimate_displacement Park disp force = magnitude_argmax_disp disp)
     \<and> ultimate_displacement Park disp force = \<bar>last disp\<bar>
     \<and> ultimate_displacement Geometric disp force = \<bar>disp ! np_argmax (map abs force)\<bar>"
proof -
  have 1: "ductility m disp force =
           Inr (case yield_displacement m disp force of
                  None \<Rightarrow> 1
                | Some y \<Rightarrow> if y > 0 then ultimate_displacement m disp force / y else 1)"
    using ductility_eq [OF assms, of m] by (simp add: ratio_or_one_def)
  have 2: "m \<noteq> Geometric \<and> m \<noteq> Park \<longrightarrow> ultimate_displacement m disp force = magnitude_argmax_disp disp"
    by (cases m) (simp_all add: ultimate_displacement_def)
  have 3: "sorted_wrt (<) (map abs disp) \<longrightarrow> ultimate_displacement Park disp force = magnitude_argmax_disp disp"
    using sorted_abs_argmax_last [OF assms(1)] by (simp add: ultimate_displacement_def)
  show ?thesis using 1 2 3 by (simp add: ultimate_displacement_def)
qed

theorem ductility_ultimate_over_yield_witness:
  "ductility ASCE [0, 1, 2] [0, 10, 12] = Inr 2
   \<and> yield_displacement ASCE [0, 1, 2] [0, 10, 12] = Some 1
   \<and> ultimate_displacement ASCE [0, 1, 2] [0, 10, 12] = 2"
proof -
  have ne: "[0, 1, 2 :: real] \<noteq> []" and len: "length [0, 1, 2 :: real] = length [0, 10, 12 :: real]"
    by simp_all
  have y: "yield_displacement ASCE [0, 1, 2] [0, 10, 12] = Some 1"
    by (simp only: yield_displacement_def ductility_method.case) code_simp
  have u: "ultimate_displacement ASCE [0, 1, 2] [0, 10, 12] = 2"
    by code_simp
  from ductility_ultimate_over_yield [OF ne len, of ASCE]
  have "ductility ASCE [0, 1, 2] [0, 10, 12] = Inr 2" by (simp add: y u)
  with y u show ?thesis by (intro conjI)
qed

text \<open>
  C5 as stated fails for the geometric method: on a branch whose force peaks before the last
  point it divides the displacement at the peak force, 1, by the yield displacement 1, where
  the displacement of largest magnitude is 2.
\<close>

theorem geometric_ultimate_counterexample:
  "ductility Geometric [0, 1, 2] [0, 10, 5] = Inr 1
   \<and> yield_displacement Geometric [0, 1, 2] [0, 10, 5] = Some 1
   \<and> magnitude_argmax_disp [0, 1, 2] = 2
   \<and> Inr (magnitude_argmax_disp [0, 1, 2] / 1) \<noteq> ductility Geometric [0, 1, 2] [0, 10, 5]"
proof -
  have c1: "ductility Geometric [0, 1, 2] [0, 10, 5] = Inr 1"
    by (simp only: ductility_def ductility_method.case) code_simp
  have c2: "yield_displacement Geometric [0, 1, 2] [0, 10, 5] = Some 1"
    by (simp only: yield_displacement_def ductility_method.case) code_simp
  have c3: "magnitude_argmax_disp [0, 1, 2] = 2"
    by code_simp
  show ?thesis by (simp add: c1 c2 c3)
qed

section \<open>Theorems: filtering repeated cycles\<close>


















end
